theory Spec2Isabelle
  imports Main "HOL-Library.Multiset" "HOL-Library.Sublist"
begin

section \<open>Python values used by the analyzer\<close>

subsection \<open>Dictionaries\<close>

text \<open>
  A Python \<open>dict\<close> keeps its keys in insertion order, and the analyzer iterates over
  \<open>graph.files\<close>, so a dictionary is an association list in insertion order.
  \<open>d[k] = v\<close> overwrites the value of a key that is present, in place, and appends
  the pair otherwise.
\<close>

type_synonym ('k, 'v) dict = "('k \<times> 'v) list"

fun dict_set :: "'k \<Rightarrow> 'v \<Rightarrow> ('k, 'v) dict \<Rightarrow> ('k, 'v) dict" where
  "dict_set k v [] = [(k, v)]"
| "dict_set k v ((k', v') # d) =
     (if k' = k then (k', v) # d else (k', v') # dict_set k v d)"

definition dict_keys :: "('k, 'v) dict \<Rightarrow> 'k list" where
  "dict_keys d = map fst d"

definition dict_has :: "'k \<Rightarrow> ('k, 'v) dict \<Rightarrow> bool" where
  "dict_has k d = (map_of d k \<noteq> None)"

subsection \<open>Strings\<close>

text \<open>\<open>s.endswith(suf)\<close> and the substring test \<open>sub in s\<close>.\<close>

definition endswith :: "string \<Rightarrow> string \<Rightarrow> bool" where
  "endswith s suf =
     (length suf \<le> length s \<and> drop (length s - length suf) s = suf)"

fun startswith :: "string \<Rightarrow> string \<Rightarrow> bool" where
  "startswith s [] = True"
| "startswith [] (c # cs) = False"
| "startswith (x # xs) (c # cs) = (x = c \<and> startswith xs cs)"

fun contains :: "string \<Rightarrow> string \<Rightarrow> bool" where
  "contains [] sub = (sub = [])"
| "contains (x # xs) sub = (startswith (x # xs) sub \<or> contains xs sub)"

text \<open>\<open>s.split(sep)\<close> for a one-character separator, and \<open>sep.join(ws)\<close>.\<close>

fun split_sep :: "char \<Rightarrow> string \<Rightarrow> string list" where
  "split_sep c [] = [[]]"
| "split_sep c (x # xs) =
     (if x = c then [] # split_sep c xs
      else (case split_sep c xs of
              [] \<Rightarrow> [[x]]
            | w # ws \<Rightarrow> (x # w) # ws))"

fun join_sep :: "string \<Rightarrow> string list \<Rightarrow> string" where
  "join_sep sep [] = []"
| "join_sep sep [w] = w"
| "join_sep sep (w # v # ws) = w @ sep @ join_sep sep (v # ws)"

subsection \<open>Paths\<close>

text \<open>
  \<open>pathlib.Path\<close> in its POSIX flavour. A path is parsed into a root
  (\<open>''''\<close>, \<open>''/''\<close>, or \<open>''//''\<close> for exactly two leading slashes) and the
  components between slashes, the empty ones and \<open>''.''\<close> dropped.
\<close>

record PurePath =
  root :: string
  tail :: "string list"

definition parse_path :: "string \<Rightarrow> PurePath" where
  "parse_path s =
     \<lparr> root = (if startswith s ''/''
                then (if length (takeWhile (\<lambda>c. c = CHR ''/'') s) = 2
                      then ''//'' else ''/'')
                else ''''),
       tail = filter (\<lambda>x. x \<noteq> [] \<and> x \<noteq> ''.'') (split_sep CHR ''/'' s) \<rparr>"

text \<open>\<open>Path(s).name\<close>: the last component, or the empty string.\<close>

definition path_name :: "string \<Rightarrow> string" where
  "path_name s = (let t = tail (parse_path s) in if t = [] then [] else last t)"

text \<open>\<open>p.parent\<close>, \<open>p / s\<close>, \<open>str(p)\<close> and \<open>p.parts\<close>.\<close>

definition path_parent :: "PurePath \<Rightarrow> PurePath" where
  "path_parent p = (if tail p = [] then p else p\<lparr>tail := butlast (tail p)\<rparr>)"

definition path_join :: "PurePath \<Rightarrow> string \<Rightarrow> PurePath" where
  "path_join p s =
     (let q = parse_path s
      in if root q \<noteq> [] then q else p\<lparr>tail := tail p @ tail q\<rparr>)"

definition path_str :: "PurePath \<Rightarrow> string" where
  "path_str p =
     (if root p = [] \<and> tail p = [] then ''.''
      else root p @ join_sep ''/'' (tail p))"

definition path_parts :: "PurePath \<Rightarrow> string list" where
  "path_parts p = (if root p = [] then tail p else root p # tail p)"

section \<open>The symbol model\<close>

record SymbolInfo =
  name :: string
  type :: string
  line :: int
  end_line :: int
  scope :: "string option"
  params :: "string list"
  return_type :: "string option"
  is_template :: bool
  is_virtual :: bool
  is_static :: bool

record IncludeInfo =
  path :: string
  inc_line :: int
  is_system :: bool

text \<open>
  \<open>function_calls\<close> is a Python set of strings; the analyzer only iterates over it,
  so it is the list of its elements in the order the iteration yields them. The fields
  \<open>functions\<close> and \<open>includes\<close> carry a prime, both words being reserved in Isabelle.
\<close>

record FileSymbols =
  file_path :: string
  functions' :: "SymbolInfo list"
  classes :: "SymbolInfo list"
  structs :: "SymbolInfo list"
  namespaces :: "SymbolInfo list"
  includes' :: "IncludeInfo list"
  function_calls :: "string list"

record FileDependency =
  source :: string
  target :: string
  reason :: string
  dep_line :: "int option"

record DependencyGraph =
  files :: "(string, FileSymbols) dict"
  dependencies :: "FileDependency list"
  file_index :: "(string, string) dict"
  symbol_index :: "(string, (string \<times> SymbolInfo) list) dict"

definition empty_graph :: DependencyGraph where
  "empty_graph = \<lparr> files = [], dependencies = [], file_index = [], symbol_index = [] \<rparr>"

section \<open>Adding files\<close>

text \<open>
  The body of the inner loop of \<open>add_file\<close>: create the entry of the symbol's name
  when it is missing, then append \<open>(file_path, symbol)\<close> to it.
\<close>

definition index_symbol ::
  "string \<Rightarrow> (string, (string \<times> SymbolInfo) list) dict \<Rightarrow> SymbolInfo
     \<Rightarrow> (string, (string \<times> SymbolInfo) list) dict" where
  "index_symbol fp idx symbol =
     (let idx1 = (if \<not> dict_has (name symbol) idx then dict_set (name symbol) [] idx else idx)
      in case map_of idx1 (name symbol) of
           None \<Rightarrow> idx1
         | Some entries \<Rightarrow> dict_set (name symbol) (entries @ [(fp, symbol)]) idx1)"

definition add_file :: "string \<Rightarrow> FileSymbols \<Rightarrow> DependencyGraph \<Rightarrow> DependencyGraph" where
  "add_file fp symbols g =
     g\<lparr> files := dict_set fp symbols (files g),
        file_index := dict_set (path_name fp) fp (file_index g),
        symbol_index :=
          foldl (index_symbol fp) (symbol_index g)
            (functions' symbols @ classes symbols @ structs symbols) \<rparr>"

section \<open>Dependency analysis\<close>

definition has_dependency :: "DependencyGraph \<Rightarrow> string \<Rightarrow> string \<Rightarrow> bool" where
  "has_dependency g s t = list_ex (\<lambda>dep. source dep = s \<and> target dep = t) (dependencies g)"

definition resolve_include :: "DependencyGraph \<Rightarrow> string \<Rightarrow> string \<Rightarrow> string option" where
  "resolve_include g include_path source_file =
     (if dict_has include_path (files g) then Some include_path
      else
        let include_filename = path_name include_path in
        case map_of (file_index g) include_filename of
          Some p \<Rightarrow> Some p
        | None \<Rightarrow>
            (case find (\<lambda>fp. endswith fp include_path) (dict_keys (files g)) of
               Some fp \<Rightarrow> Some fp
             | None \<Rightarrow>
                 let source_dir = path_parent (parse_path source_file);
                     potential_path = path_str (path_join source_dir include_path)
                 in if dict_has potential_path (files g) then Some potential_path
                    else find (\<lambda>fp. path_name fp = include_filename) (dict_keys (files g))))"

text \<open>
  \<open>_analyze_includes\<close> tests \<open>if target_file:\<close>, so a resolved path that is the empty
  string adds no edge either.
\<close>

definition include_step :: "string \<Rightarrow> DependencyGraph \<Rightarrow> IncludeInfo \<Rightarrow> DependencyGraph" where
  "include_step source_file g inc =
     (case resolve_include g (path inc) source_file of
        None \<Rightarrow> g
      | Some target_file \<Rightarrow>
          if target_file \<noteq> [] then
            g\<lparr> dependencies := dependencies g @
                 [\<lparr> source = source_file, target = target_file,
                    reason = ''include'', dep_line = Some (inc_line inc) \<rparr>] \<rparr>
          else g)"

definition analyze_includes :: "string \<Rightarrow> FileSymbols \<Rightarrow> DependencyGraph \<Rightarrow> DependencyGraph" where
  "analyze_includes source_file symbols g = foldl (include_step source_file) g (includes' symbols)"

definition call_step ::
  "string \<Rightarrow> DependencyGraph \<Rightarrow> string \<times> SymbolInfo \<Rightarrow> DependencyGraph" where
  "call_step source_file g entry =
     (case entry of (target_file, symbol_info) \<Rightarrow>
        if target_file = source_file then g
        else if \<not> has_dependency g source_file target_file then
          g\<lparr> dependencies := dependencies g @
               [\<lparr> source = source_file, target = target_file,
                  reason = ''call'', dep_line = None \<rparr>] \<rparr>
        else g)"

definition called_step :: "string \<Rightarrow> DependencyGraph \<Rightarrow> string \<Rightarrow> DependencyGraph" where
  "called_step source_file g called_func =
     (case map_of (symbol_index g) called_func of
        None \<Rightarrow> g
      | Some entries \<Rightarrow> foldl (call_step source_file) g entries)"

definition analyze_function_calls ::
  "string \<Rightarrow> FileSymbols \<Rightarrow> DependencyGraph \<Rightarrow> DependencyGraph" where
  "analyze_function_calls source_file symbols g =
     foldl (called_step source_file) g (function_calls symbols)"

definition file_step :: "DependencyGraph \<Rightarrow> string \<times> FileSymbols \<Rightarrow> DependencyGraph" where
  "file_step g item =
     (case item of (fp, symbols) \<Rightarrow>
        analyze_function_calls fp symbols (analyze_includes fp symbols g))"

definition analyze_dependencies :: "DependencyGraph \<Rightarrow> DependencyGraph" where
  "analyze_dependencies g = foldl file_step (g\<lparr>dependencies := []\<rparr>) (files g)"

section \<open>Graph queries\<close>

definition get_dependencies_of :: "DependencyGraph \<Rightarrow> string \<Rightarrow> string list" where
  "get_dependencies_of g fp =
     map target (filter (\<lambda>dep. source dep = fp) (dependencies g))"

definition get_dependents_of :: "DependencyGraph \<Rightarrow> string \<Rightarrow> string list" where
  "get_dependents_of g fp =
     map source (filter (\<lambda>dep. target dep = fp) (dependencies g))"

text \<open>
  \<open>get_file_metrics\<close> returns a dictionary from metric names to values; the value of
  \<open>'file'\<close> is a string and the others are integers. The empty dictionary is \<open>[]\<close>.
\<close>

datatype metric_value = MStr string | MInt int

definition get_file_metrics :: "DependencyGraph \<Rightarrow> string \<Rightarrow> (string, metric_value) dict" where
  "get_file_metrics g fp =
     (case map_of (files g) fp of
        None \<Rightarrow> []
      | Some symbols \<Rightarrow>
          let deps = get_dependencies_of g fp;
              dependents = get_dependents_of g fp
          in [ (''file'', MStr fp),
               (''functions_count'', MInt (int (length (functions' symbols)))),
               (''classes_count'', MInt (int (length (classes symbols)))),
               (''structs_count'', MInt (int (length (structs symbols)))),
               (''includes_count'', MInt (int (length (includes' symbols)))),
               (''dependencies_count'', MInt (int (length deps))),
               (''dependents_count'', MInt (int (length dependents))),
               (''coupling'', MInt (int (length deps) + int (length dependents))) ])"

subsection \<open>Coupling ranking\<close>

text \<open>
  \<open>sorted(xs, key=f, reverse=True)\<close>: CPython reverses the list, sorts it with its
  stable sort and reverses the result, so that equal keys keep their original order.
  \<open>xs[:k]\<close> keeps the first \<open>k\<close> elements, and for a negative \<open>k\<close> drops the last
  \<open>-k\<close>.
\<close>

definition sorted_reverse :: "('a \<Rightarrow> int) \<Rightarrow> 'a list \<Rightarrow> 'a list" where
  "sorted_reverse f xs = rev (sort_key f (rev xs))"

definition slice_to :: "'a list \<Rightarrow> int \<Rightarrow> 'a list" where
  "slice_to xs k =
     (if 0 \<le> k then take (nat k) xs else take (length xs - nat (- k)) xs)"

definition coupling_of :: "DependencyGraph \<Rightarrow> string \<Rightarrow> int" where
  "coupling_of g fp =
     int (length (get_dependencies_of g fp)) + int (length (get_dependents_of g fp))"

definition coupling_dict :: "DependencyGraph \<Rightarrow> (string, int) dict" where
  "coupling_dict g =
     foldl (\<lambda>coupling fp. dict_set fp (coupling_of g fp) coupling) [] (dict_keys (files g))"

definition get_most_coupled_files :: "DependencyGraph \<Rightarrow> int \<Rightarrow> (string \<times> int) list" where
  "get_most_coupled_files g limit = slice_to (sorted_reverse snd (coupling_dict g)) limit"

subsection \<open>Cycles\<close>

text \<open>
  Modelled from the spec: the cycle enumeration is \<open>networkx.simple_cycles\<close> on a
  \<open>networkx.DiGraph\<close>, a library that is not part of the repository's sources.
  The directed graph is its successor dictionary: \<open>add_edge u v\<close> creates the nodes
  \<open>u\<close> and \<open>v\<close> when they are missing and records \<open>v\<close> once among the successors of
  \<open>u\<close>, so parallel edges collapse. \<open>simple_cycles\<close> enumerates all simple directed
  cycles (no repeated node except start = end): from each node, in node order, a
  depth-first search extends simple paths through the later nodes only and reports
  those whose last node has an edge back to the start.
\<close>

type_synonym 'a DiGraph = "('a, 'a list) dict"

definition add_node :: "'a \<Rightarrow> 'a DiGraph \<Rightarrow> 'a DiGraph" where
  "add_node u G = (if dict_has u G then G else dict_set u [] G)"

definition successors :: "'a DiGraph \<Rightarrow> 'a \<Rightarrow> 'a list" where
  "successors G u = (case map_of G u of None \<Rightarrow> [] | Some vs \<Rightarrow> vs)"

definition add_edge :: "'a \<Rightarrow> 'a \<Rightarrow> 'a DiGraph \<Rightarrow> 'a DiGraph" where
  "add_edge u v G =
     (let G2 = add_node v (add_node u G)
      in if v \<in> set (successors G2 u) then G2
         else dict_set u (successors G2 u @ [v]) G2)"

function simple_paths :: "'a DiGraph \<Rightarrow> 'a list \<Rightarrow> 'a \<Rightarrow> 'a list list" where
  "simple_paths G avail u =
     [u] # concat (map (\<lambda>w. map ((#) u) (simple_paths G (remove1 w avail) w))
                       (filter (\<lambda>w. w \<in> set avail) (successors G u)))"
  by pat_completeness auto
termination
proof (relation "measure (\<lambda>(G, avail, u). length avail)")
  show "wf (measure (\<lambda>(G, avail, u). length avail))" by simp
next
  fix G :: "'a DiGraph" and avail :: "'a list" and u w :: 'a
  assume "w \<in> set (filter (\<lambda>w. w \<in> set avail) (successors G u))"
  then have "w \<in> set avail" by simp
  then have "length (remove1 w avail) < length avail"
    by (simp add: length_remove1) (cases avail; simp)
  then show "((G, remove1 w avail, w), (G, avail, u)) \<in> measure (\<lambda>(G, avail, u). length avail)"
    by simp
qed

declare simple_paths.simps [simp del]

fun simple_cycles_on :: "'a DiGraph \<Rightarrow> 'a list \<Rightarrow> 'a list list" where
  "simple_cycles_on G [] = []"
| "simple_cycles_on G (v # vs) =
     filter (\<lambda>p. v \<in> set (successors G (last p))) (simple_paths G vs v)
     @ simple_cycles_on G vs"

definition simple_cycles :: "'a DiGraph \<Rightarrow> 'a list list" where
  "simple_cycles G = simple_cycles_on G (dict_keys G)"

text \<open>
  \<open>find_circular_dependencies\<close> adds one graph edge per dependency, in order, and
  returns the list of cycles. The model of \<open>simple_cycles\<close> is total, so the
  \<open>except\<close> branch, which returns the empty list, is never taken.
\<close>

definition build_digraph :: "FileDependency list \<Rightarrow> string DiGraph" where
  "build_digraph deps = foldl (\<lambda>G dep. add_edge (source dep) (target dep) G) [] deps"

definition find_circular_dependencies :: "DependencyGraph \<Rightarrow> string list list" where
  "find_circular_dependencies g = simple_cycles (build_digraph (dependencies g))"

section \<open>Export\<close>

text \<open>
  The exported document is a dictionary of lists of dictionaries with fixed keys; each
  is a record whose fields are the keys (\<open>n_id\<close> for the node's key \<open>'id'\<close>, and so on).
\<close>

record ExportedSymbol =
  es_name :: string
  es_line :: int
  es_type :: string

record ExportNode =
  n_id :: string
  n_name :: string
  n_type :: string
  n_group :: string
  n_exportedSymbols :: "ExportedSymbol list"
  n_metrics :: "(string, metric_value) dict"

record ExportLink =
  l_source :: string
  l_target :: string
  l_reason :: string

record ExportMetadata =
  total_files :: int
  total_dependencies :: int
  circular_dependencies :: int

record ExportDocument =
  nodes :: "ExportNode list"
  links :: "ExportLink list"
  metadata :: ExportMetadata

text \<open>\<open>s.endswith((a, b, ...))\<close> with a tuple holds when one of the suffixes matches.\<close>

definition endswith_any :: "string \<Rightarrow> string list \<Rightarrow> bool" where
  "endswith_any s sufs = list_ex (endswith s) sufs"

definition file_type :: "string \<Rightarrow> string" where
  "file_type fp =
     (if endswith_any fp [''.h'', ''.hpp'', ''.hh''] then ''header''
      else if endswith_any fp [''.cpp'', ''.cc'', ''.cxx'', ''.c''] then ''source''
      else if contains fp ''CMakeLists'' \<or> endswith fp ''.cmake'' then ''cmake''
      else if endswith fp ''.json'' then ''json''
      else ''other'')"

definition file_group :: "string \<Rightarrow> string" where
  "file_group fp =
     (let parts = path_parts (parse_path fp)
      in if length parts > 1 then parts ! (length parts - 2) else ''root'')"

definition export_symbols :: "FileSymbols \<Rightarrow> ExportedSymbol list" where
  "export_symbols symbols =
     map (\<lambda>func. \<lparr> es_name = name func @ ''()'', es_line = line func, es_type = ''function'' \<rparr>)
         (take 5 (functions' symbols))
     @ map (\<lambda>cls. \<lparr> es_name = ''class '' @ name cls, es_line = line cls, es_type = ''class'' \<rparr>)
           (take 5 (classes symbols))"

definition export_node :: "DependencyGraph \<Rightarrow> string \<times> FileSymbols \<Rightarrow> ExportNode" where
  "export_node g item =
     (case item of (fp, symbols) \<Rightarrow>
        \<lparr> n_id = fp, n_name = path_name fp, n_type = file_type fp, n_group = file_group fp,
          n_exportedSymbols = export_symbols symbols, n_metrics = get_file_metrics g fp \<rparr>)"

definition export_to_dict :: "DependencyGraph \<Rightarrow> ExportDocument" where
  "export_to_dict g =
     (let nodes = map (export_node g) (files g);
          links = map (\<lambda>dep. \<lparr> l_source = source dep, l_target = target dep,
                               l_reason = reason dep \<rparr>) (dependencies g)
      in \<lparr> nodes = nodes, links = links,
           metadata = \<lparr> total_files = int (length nodes),
                        total_dependencies = int (length links),
                        circular_dependencies = int (length (find_circular_dependencies g)) \<rparr> \<rparr>)"

section \<open>Specification vocabulary\<close>

subsection \<open>Index lookups\<close>

text \<open>
  The entries the symbol index holds for a name (none when the name is not a key), and
  the entries one file contributes for a name: its functions, classes and structs of
  that name, in this order, paired with the file's path.
\<close>

definition lookup_symbol ::
  "(string, (string \<times> SymbolInfo) list) dict \<Rightarrow> string \<Rightarrow> (string \<times> SymbolInfo) list" where
  "lookup_symbol idx n = (case map_of idx n of None \<Rightarrow> [] | Some entries \<Rightarrow> entries)"

definition entries_for :: "string \<Rightarrow> FileSymbols \<Rightarrow> string \<Rightarrow> (string \<times> SymbolInfo) list" where
  "entries_for fp symbols n =
     map (Pair fp) (filter (\<lambda>s. name s = n)
       (functions' symbols @ classes symbols @ structs symbols))"

subsection \<open>Graphs built through the interface\<close>

inductive reachable :: "DependencyGraph \<Rightarrow> bool" where
  reachable_init: "reachable empty_graph"
| reachable_add: "reachable g \<Longrightarrow> reachable (add_file fp symbols g)"
| reachable_analyze: "reachable g \<Longrightarrow> reachable (analyze_dependencies g)"

subsection \<open>The include resolver as a list of strategies\<close>

text \<open>
  The resolver as the specification words it: five strategies, tried in order, the
  first match winning.
\<close>

definition strategy_exact :: "DependencyGraph \<Rightarrow> string \<Rightarrow> string \<Rightarrow> string option" where
  "strategy_exact g include_path source_file =
     (if dict_has include_path (files g) then Some include_path else None)"

definition strategy_basename :: "DependencyGraph \<Rightarrow> string \<Rightarrow> string \<Rightarrow> string option" where
  "strategy_basename g include_path source_file =
     map_of (file_index g) (path_name include_path)"

definition strategy_suffix :: "DependencyGraph \<Rightarrow> string \<Rightarrow> string \<Rightarrow> string option" where
  "strategy_suffix g include_path source_file =
     find (\<lambda>fp. endswith fp include_path) (dict_keys (files g))"

definition strategy_relative :: "DependencyGraph \<Rightarrow> string \<Rightarrow> string \<Rightarrow> string option" where
  "strategy_relative g include_path source_file =
     (let p = path_str (path_join (path_parent (parse_path source_file)) include_path)
      in if dict_has p (files g) then Some p else None)"

definition strategy_rescan :: "DependencyGraph \<Rightarrow> string \<Rightarrow> string \<Rightarrow> string option" where
  "strategy_rescan g include_path source_file =
     find (\<lambda>fp. path_name fp = path_name include_path) (dict_keys (files g))"

fun first_match :: "'a option list \<Rightarrow> 'a option" where
  "first_match [] = None"
| "first_match (Some x # rest) = Some x"
| "first_match (None # rest) = first_match rest"

definition resolve_include_spec :: "DependencyGraph \<Rightarrow> string \<Rightarrow> string \<Rightarrow> string option" where
  "resolve_include_spec g include_path source_file =
     first_match (map (\<lambda>strategy. strategy g include_path source_file)
       [strategy_exact, strategy_basename, strategy_suffix, strategy_relative, strategy_rescan])"

subsection \<open>Simple cycles of an edge set\<close>

text \<open>
  The edges of the graph, a walk along edges, and a simple cycle given as the list of
  its nodes: no node repeats and the walk closes from the last node to the first.
\<close>

definition dep_edges :: "FileDependency list \<Rightarrow> (string \<times> string) set" where
  "dep_edges deps = (\<lambda>dep. (source dep, target dep)) ` set deps"

fun walk :: "('a \<times> 'a) set \<Rightarrow> 'a list \<Rightarrow> bool" where
  "walk E [] = True"
| "walk E [x] = True"
| "walk E (x # y # rest) = ((x, y) \<in> E \<and> walk E (y # rest))"

definition is_simple_cycle :: "('a \<times> 'a) set \<Rightarrow> 'a list \<Rightarrow> bool" where
  "is_simple_cycle E c = (c \<noteq> [] \<and> distinct c \<and> walk E (c @ [hd c]))"

subsection \<open>Guarded call edges\<close>

text \<open>
  An edge list in which every call edge joins two different files that no earlier edge
  of the list joins in the same direction.
\<close>

definition call_edges_guarded :: "FileDependency list \<Rightarrow> bool" where
  "call_edges_guarded ds =
     (\<forall>pre d post. ds = pre @ d # post \<and> reason d = ''call'' \<longrightarrow>
        source d \<noteq> target d \<and>
        (\<forall>e \<in> set pre. \<not> (source e = source d \<and> target e = target d)))"

subsection \<open>Closed indexes and edges\<close>

text \<open>
  The indexes name only files of the file map, and so do both ends of every edge.
\<close>

definition entries_within ::
  "string set \<Rightarrow> (string, (string \<times> SymbolInfo) list) dict \<Rightarrow> bool" where
  "entries_within K idx =
     (\<forall>n entries f s. (n, entries) \<in> set idx \<longrightarrow> (f, s) \<in> set entries \<longrightarrow> f \<in> K)"

definition index_closed :: "DependencyGraph \<Rightarrow> bool" where
  "index_closed g =
     ((\<forall>n p. (n, p) \<in> set (file_index g) \<longrightarrow> dict_has p (files g)) \<and>
      entries_within {k. dict_has k (files g)} (symbol_index g))"

definition edges_closed :: "DependencyGraph \<Rightarrow> bool" where
  "edges_closed g =
     (\<forall>d \<in> set (dependencies g). dict_has (source d) (files g) \<and> dict_has (target d) (files g))"

subsection \<open>The ranking of all files\<close>

text \<open>
  Every file with its coupling, in the insertion order of the file map; and the whole
  ranking, which is what \<open>get_most_coupled_files\<close> returns when the limit is the
  number of files.
\<close>

definition coupling_items :: "DependencyGraph \<Rightarrow> (string \<times> int) list" where
  "coupling_items g = map (\<lambda>fp. (fp, coupling_of g fp)) (dict_keys (files g))"

definition full_ranking :: "DependencyGraph \<Rightarrow> (string \<times> int) list" where
  "full_ranking g = get_most_coupled_files g (int (length (files g)))"

subsection \<open>The edges of a successor dictionary\<close>

definition graph_edges :: "'a DiGraph \<Rightarrow> ('a \<times> 'a) set" where
  "graph_edges G = {(u, w). w \<in> set (successors G u)}"

subsection \<open>Example inputs\<close>

definition example_symbol :: "string \<Rightarrow> string \<Rightarrow> SymbolInfo" where
  "example_symbol n t =
     \<lparr> name = n, type = t, line = 1, end_line = 1, scope = None, params = [],
       return_type = None, is_template = False, is_virtual = False, is_static = False \<rparr>"

definition example_file ::
  "string \<Rightarrow> SymbolInfo list \<Rightarrow> string list \<Rightarrow> string list \<Rightarrow> FileSymbols" where
  "example_file fp funs incs calls =
     \<lparr> file_path = fp, functions' = funs, classes = [], structs = [], namespaces = [],
       includes' = map (\<lambda>p. \<lparr> path = p, inc_line = 1, is_system = False \<rparr>) incs,
       function_calls = calls \<rparr>"

definition example_edge :: "string \<Rightarrow> string \<Rightarrow> FileDependency" where
  "example_edge s t = \<lparr> source = s, target = t, reason = ''include'', dep_line = None \<rparr>"

definition example_graph :: DependencyGraph where
  "example_graph =
     add_file ''B.cpp'' (example_file ''B.cpp'' [] [] [''f''])
       (add_file ''C.cpp'' (example_file ''C.cpp'' [] [''A.h''] [''f''])
         (add_file ''A.h'' (example_file ''A.h'' [example_symbol ''f'' ''function''] [] [])
           empty_graph))"

definition example_include_graph :: DependencyGraph where
  "example_include_graph =
     add_file ''z/Utils.h'' (example_file ''z/Utils.h'' [] [] [])
       (add_file ''x/Utils.h'' (example_file ''x/Utils.h'' [] [] [])
         (add_file ''y/x/Utils.h'' (example_file ''y/x/Utils.h'' [] [] [])
           empty_graph))"

definition example_build_graph :: DependencyGraph where
  "example_build_graph =
     add_file ''data/config.json'' (example_file ''data/config.json'' [] [] [])
       (add_file ''CMakeLists.txt'' (example_file ''CMakeLists.txt'' [] [] []) empty_graph)"

definition example_star_graph :: DependencyGraph where
  "example_star_graph =
     \<lparr> files = [(''a.h'', example_file ''a.h'' [] [] []),
                (''b.h'', example_file ''b.h'' [] [] []),
                (''hub.cpp'', example_file ''hub.cpp'' [] [] []),
                (''c.h'', example_file ''c.h'' [] [] []),
                (''d.h'', example_file ''d.h'' [] [] [])],
       dependencies = [example_edge ''hub.cpp'' ''a.h'', example_edge ''hub.cpp'' ''b.h'',
                       example_edge ''hub.cpp'' ''c.h'', example_edge ''hub.cpp'' ''d.h'',
                       example_edge ''d.h'' ''c.h''],
       file_index = [], symbol_index = [] \<rparr>"

definition example_triangle_graph :: DependencyGraph where
  "example_triangle_graph =
     empty_graph \<lparr> dependencies :=
       [example_edge ''B.h'' ''C.h'', example_edge ''A.h'' ''B.h'',
        example_edge ''C.h'' ''A.h'',
        \<lparr> source = ''A.h'', target = ''B.h'', reason = ''call'', dep_line = None \<rparr>] \<rparr>"

section \<open>Dictionary facts\<close>

lemma map_of_dict_set: "map_of (dict_set k v d) = (map_of d)(k \<mapsto> v)"
  by (induction d) (auto simp: fun_eq_iff)

lemma dict_has_iff_keys: "dict_has k d \<longleftrightarrow> k \<in> set (dict_keys d)"
  by (simp add: dict_has_def dict_keys_def map_of_eq_None_iff)

lemma dict_keys_dict_set:
  "dict_keys (dict_set k v d) =
     (if k \<in> set (dict_keys d) then dict_keys d else dict_keys d @ [k])"
  by (induction d) (force simp: dict_keys_def)+

lemma keys_dict_set: "set (dict_keys (dict_set k v d)) = insert k (set (dict_keys d))"
  by (auto simp: dict_keys_dict_set)

lemma set_dict_set_subset: "set (dict_set k v d) \<subseteq> insert (k, v) (set d)"
  by (induction d) (auto split: if_splits)

lemma dict_set_fresh: "k \<notin> set (dict_keys d) \<Longrightarrow> dict_set k v d = d @ [(k, v)]"
  by (induction d) (auto simp: dict_keys_def)

lemma distinct_keys_dict_set:
  "distinct (dict_keys d) \<Longrightarrow> distinct (dict_keys (dict_set k v d))"
  by (simp add: dict_keys_dict_set)

section \<open>The analysis pass only rewrites the edge list\<close>

lemma include_step_frame:
  "(include_step s g inc)\<lparr>dependencies := ds\<rparr> = g\<lparr>dependencies := ds\<rparr>"
  by (simp add: include_step_def split: option.splits)

lemma call_step_frame:
  "(call_step s g entry)\<lparr>dependencies := ds\<rparr> = g\<lparr>dependencies := ds\<rparr>"
  by (cases entry) (simp add: call_step_def)

lemma foldl_frame:
  assumes step: "\<And>g x ds. (f g x)\<lparr>dependencies := ds\<rparr> = g\<lparr>dependencies := ds\<rparr>"
  shows "(foldl f g xs)\<lparr>dependencies := ds\<rparr> = g\<lparr>dependencies := ds\<rparr>"
proof (induction xs arbitrary: g)
  case Nil
  show ?case by simp
next
  case (Cons x xs)
  have "(foldl f (f g x) xs)\<lparr>dependencies := ds\<rparr> = (f g x)\<lparr>dependencies := ds\<rparr>"
    by (rule Cons.IH)
  then show ?case by (simp add: step)
qed

lemma called_step_frame:
  "(called_step s g c)\<lparr>dependencies := ds\<rparr> = g\<lparr>dependencies := ds\<rparr>"
  by (simp add: called_step_def foldl_frame [of "call_step s", OF call_step_frame]
      split: option.splits)

lemma file_step_frame:
  "(file_step g item)\<lparr>dependencies := ds\<rparr> = g\<lparr>dependencies := ds\<rparr>"
proof -
  obtain fp symbols where item: "item = (fp, symbols)" by (cases item)
  have "(analyze_function_calls fp symbols (analyze_includes fp symbols g))\<lparr>dependencies := ds\<rparr>
          = (analyze_includes fp symbols g)\<lparr>dependencies := ds\<rparr>"
    unfolding analyze_function_calls_def
    by (rule foldl_frame [of "called_step fp", OF called_step_frame])
  also have "\<dots> = g\<lparr>dependencies := ds\<rparr>"
    unfolding analyze_includes_def
    by (rule foldl_frame [of "include_step fp", OF include_step_frame])
  finally show ?thesis by (simp add: file_step_def item)
qed

lemma analyze_dependencies_frame:
  "(analyze_dependencies g)\<lparr>dependencies := ds\<rparr> = g\<lparr>dependencies := ds\<rparr>"
proof -
  have "(foldl file_step (g\<lparr>dependencies := []\<rparr>) (files g))\<lparr>dependencies := ds\<rparr>
          = g\<lparr>dependencies := []\<rparr>\<lparr>dependencies := ds\<rparr>"
    by (rule foldl_frame [of file_step, OF file_step_frame])
  then show ?thesis by (simp add: analyze_dependencies_def)
qed

lemma frame_files:
  assumes "g'\<lparr>dependencies := []\<rparr> = g\<lparr>dependencies := []\<rparr>"
  shows "files g' = files g" and "file_index g' = file_index g"
    and "symbol_index g' = symbol_index g"
proof -
  have "files g' = files (g'\<lparr>dependencies := []\<rparr>)" by simp
  also have "\<dots> = files g" by (simp add: assms)
  finally show "files g' = files g" .
  have "file_index g' = file_index (g'\<lparr>dependencies := []\<rparr>)" by simp
  also have "\<dots> = file_index g" by (simp add: assms)
  finally show "file_index g' = file_index g" .
  have "symbol_index g' = symbol_index (g'\<lparr>dependencies := []\<rparr>)" by simp
  also have "\<dots> = symbol_index g" by (simp add: assms)
  finally show "symbol_index g' = symbol_index g" .
qed

section \<open>Repeated analysis\<close>

text \<open>
  C4. \<open>analyze_dependencies\<close> first clears the edge list and then recomputes it:
  whatever edges the graph held before, the pass returns what it returns on the graph
  without them, and it changes neither the file map nor the indexes. Hence it is
  idempotent: a second pass on the unchanged graph returns the same graph, with the
  same edge list and no edge duplicated by the repetition.
\<close>

theorem analyze_dependencies_idempotent:
  "analyze_dependencies (g\<lparr>dependencies := ds\<rparr>) = analyze_dependencies g
   \<and> analyze_dependencies (analyze_dependencies g) = analyze_dependencies g
   \<and> files (analyze_dependencies g) = files g
   \<and> file_index (analyze_dependencies g) = file_index g
   \<and> symbol_index (analyze_dependencies g) = symbol_index g"
proof -
  have clear: "analyze_dependencies (g\<lparr>dependencies := es\<rparr>) = analyze_dependencies g" for es
    by (simp add: analyze_dependencies_def)
  have "(analyze_dependencies g)\<lparr>dependencies := dependencies (analyze_dependencies g)\<rparr>
      = g\<lparr>dependencies := dependencies (analyze_dependencies g)\<rparr>"
    by (rule analyze_dependencies_frame)
  then have "analyze_dependencies g = g\<lparr>dependencies := dependencies (analyze_dependencies g)\<rparr>"
    by simp
  then have "analyze_dependencies (analyze_dependencies g)
      = analyze_dependencies (g\<lparr>dependencies := dependencies (analyze_dependencies g)\<rparr>)"
    by simp
  also have "\<dots> = analyze_dependencies g" by (rule clear)
  finally have idem: "analyze_dependencies (analyze_dependencies g) = analyze_dependencies g" .
  show ?thesis
    using clear [of ds] idem frame_files [OF analyze_dependencies_frame, of g] by simp
qed

text \<open>
  On the example graph, two edges left over from before, one of them a copy of an edge
  the pass finds and one between files that are not there, are gone after the pass, and
  a second pass gives the same two edges again.
\<close>

theorem analyze_dependencies_idempotent_witness:
  "dependencies (analyze_dependencies
      (example_graph\<lparr>dependencies :=
         [\<lparr> source = ''B.cpp'', target = ''A.h'', reason = ''call'', dep_line = None \<rparr>,
          \<lparr> source = ''old.cpp'', target = ''gone.h'', reason = ''include'',
             dep_line = Some 7 \<rparr>]\<rparr>))
     = [\<lparr> source = ''C.cpp'', target = ''A.h'', reason = ''include'', dep_line = Some 1 \<rparr>,
        \<lparr> source = ''B.cpp'', target = ''A.h'', reason = ''call'', dep_line = None \<rparr>]
   \<and> dependencies (analyze_dependencies (analyze_dependencies example_graph))
     = [\<lparr> source = ''C.cpp'', target = ''A.h'', reason = ''include'', dep_line = Some 1 \<rparr>,
        \<lparr> source = ''B.cpp'', target = ''A.h'', reason = ''call'', dep_line = None \<rparr>]"
proof -
  have run: "dependencies (analyze_dependencies example_graph)
     = [\<lparr> source = ''C.cpp'', target = ''A.h'', reason = ''include'', dep_line = Some 1 \<rparr>,
        \<lparr> source = ''B.cpp'', target = ''A.h'', reason = ''call'', dep_line = None \<rparr>]"
    by code_simp
  note inst = analyze_dependencies_idempotent [where g = example_graph and ds =
         "[\<lparr> source = ''B.cpp'', target = ''A.h'', reason = ''call'', dep_line = None \<rparr>,
           \<lparr> source = ''old.cpp'', target = ''gone.h'', reason = ''include'',
              dep_line = Some 7 \<rparr>]"]
  from inst run show ?thesis by simp
qed

section \<open>Call edges\<close>

lemma call_edges_guarded_Nil: "call_edges_guarded []"
  by (simp add: call_edges_guarded_def)

lemma call_edges_guarded_snoc:
  "call_edges_guarded (ds @ [d]) \<longleftrightarrow>
     call_edges_guarded ds \<and>
     (reason d = ''call'' \<longrightarrow>
        source d \<noteq> target d \<and>
        (\<forall>e \<in> set ds. \<not> (source e = source d \<and> target e = target d)))"
  (is "?L \<longleftrightarrow> ?G \<and> ?N")
proof
  assume L: ?L
  have ?G
    unfolding call_edges_guarded_def
  proof (intro allI impI)
    fix pre x post
    assume "ds = pre @ x # post \<and> reason x = ''call''"
    then have "ds @ [d] = pre @ x # (post @ [d]) \<and> reason x = ''call''" by simp
    with L show "source x \<noteq> target x \<and>
        (\<forall>e \<in> set pre. \<not> (source e = source x \<and> target e = target x))"
      unfolding call_edges_guarded_def by blast
  qed
  moreover have ?N
  proof
    assume "reason d = ''call''"
    then have "ds @ [d] = ds @ d # [] \<and> reason d = ''call''" by simp
    with L show "source d \<noteq> target d \<and>
        (\<forall>e \<in> set ds. \<not> (source e = source d \<and> target e = target d))"
      unfolding call_edges_guarded_def by blast
  qed
  ultimately show "?G \<and> ?N" ..
next
  assume R: "?G \<and> ?N"
  show ?L
    unfolding call_edges_guarded_def
  proof (intro allI impI)
    fix pre x post
    assume A: "ds @ [d] = pre @ x # post \<and> reason x = ''call''"
    show "source x \<noteq> target x \<and>
        (\<forall>e \<in> set pre. \<not> (source e = source x \<and> target e = target x))"
    proof (cases post rule: rev_cases)
      case Nil
      with A have "pre = ds" and "x = d" by simp_all
      with A R show ?thesis by simp
    next
      case (snoc post' y)
      with A have "ds = pre @ x # post'" by simp
      with A R show ?thesis unfolding call_edges_guarded_def by blast
    qed
  qed
qed

lemma include_step_dependencies:
  "dependencies (include_step s g inc) = dependencies g
   \<or> (\<exists>t l. dependencies (include_step s g inc) = dependencies g @
        [\<lparr> source = s, target = t, reason = ''include'', dep_line = l \<rparr>])"
  by (simp add: include_step_def split: option.splits)

lemma include_step_guarded:
  assumes "call_edges_guarded (dependencies g)"
  shows "call_edges_guarded (dependencies (include_step s g inc))"
  using include_step_dependencies [of s g inc] assms
  by (auto simp: call_edges_guarded_snoc)

lemma call_step_dependencies:
  "dependencies (call_step s g (t, symbol_info)) =
     (if t \<noteq> s \<and> \<not> has_dependency g s t
      then dependencies g @ [\<lparr> source = s, target = t, reason = ''call'', dep_line = None \<rparr>]
      else dependencies g)"
  by (simp add: call_step_def)

lemma call_step_guarded:
  assumes "call_edges_guarded (dependencies g)"
  shows "call_edges_guarded (dependencies (call_step s g entry))"
proof -
  obtain t symbol_info where entry: "entry = (t, symbol_info)" by (cases entry)
  show ?thesis
  proof (cases "t \<noteq> s \<and> \<not> has_dependency g s t")
    case True
    then have "\<forall>e \<in> set (dependencies g). \<not> (source e = s \<and> target e = t)"
      by (simp add: has_dependency_def list_ex_iff)
    with True assms show ?thesis
      by (auto simp: entry call_step_dependencies call_edges_guarded_snoc)
  next
    case False
    with assms show ?thesis
      by (auto simp: entry call_step_dependencies)
  qed
qed

lemma foldl_dependencies_invariant:
  assumes step: "\<And>g x. P (dependencies g) \<Longrightarrow> P (dependencies (f g x))"
    and init: "P (dependencies g)"
  shows "P (dependencies (foldl f g xs))"
  using init by (induction xs arbitrary: g) (simp_all add: step)

lemma called_step_guarded:
  assumes "call_edges_guarded (dependencies g)"
  shows "call_edges_guarded (dependencies (called_step s g c))"
proof (cases "map_of (symbol_index g) c")
  case None
  with assms show ?thesis by (simp add: called_step_def)
next
  case (Some entries)
  have "call_edges_guarded (dependencies (foldl (call_step s) g entries))"
    by (rule foldl_dependencies_invariant [where P = call_edges_guarded])
       (simp_all add: call_step_guarded assms)
  with Some show ?thesis by (simp add: called_step_def)
qed

lemma file_step_guarded:
  assumes "call_edges_guarded (dependencies g)"
  shows "call_edges_guarded (dependencies (file_step g item))"
proof -
  obtain fp symbols where item: "item = (fp, symbols)" by (cases item)
  have "call_edges_guarded (dependencies (analyze_includes fp symbols g))"
    unfolding analyze_includes_def
    by (rule foldl_dependencies_invariant [where P = call_edges_guarded])
       (simp_all add: include_step_guarded assms)
  then have "call_edges_guarded
      (dependencies (analyze_function_calls fp symbols (analyze_includes fp symbols g)))"
    unfolding analyze_function_calls_def
    by (intro foldl_dependencies_invariant [where P = call_edges_guarded])
       (simp_all add: called_step_guarded)
  then show ?thesis by (simp add: file_step_def item)
qed

lemma analyze_dependencies_guarded:
  "call_edges_guarded (dependencies (analyze_dependencies g))"
  unfolding analyze_dependencies_def
  by (rule foldl_dependencies_invariant [where P = call_edges_guarded])
     (simp_all add: file_step_guarded call_edges_guarded_Nil)

text \<open>
  C3. While the analysis runs, a call edge from \<open>s\<close> to \<open>t\<close> is appended only when
  \<open>t\<close> is not \<open>s\<close> and no edge of the list, of either reason, already goes from \<open>s\<close> to
  \<open>t\<close>. So in the edge list of any analysis, a call edge never has its source as its
  target, and no edge before it joins the same ordered pair.
\<close>

theorem call_edges_suppressed:
  "dependencies (call_step s g0 (t, symbol_info)) =
     (if t \<noteq> s \<and> \<not> has_dependency g0 s t
      then dependencies g0 @ [\<lparr> source = s, target = t, reason = ''call'', dep_line = None \<rparr>]
      else dependencies g0)
   \<and> (dependencies (analyze_dependencies g) = pre @ d # post \<and> reason d = ''call'' \<longrightarrow>
        source d \<noteq> target d \<and>
        (\<forall>e \<in> set pre. \<not> (source e = source d \<and> target e = target d)))"
proof
  show "dependencies (call_step s g0 (t, symbol_info)) =
     (if t \<noteq> s \<and> \<not> has_dependency g0 s t
      then dependencies g0 @ [\<lparr> source = s, target = t, reason = ''call'', dep_line = None \<rparr>]
      else dependencies g0)"
    by (rule call_step_dependencies)
next
  show "dependencies (analyze_dependencies g) = pre @ d # post \<and> reason d = ''call'' \<longrightarrow>
        source d \<noteq> target d \<and>
        (\<forall>e \<in> set pre. \<not> (source e = source d \<and> target e = target d))"
    using analyze_dependencies_guarded [of g]
    unfolding call_edges_guarded_def by blast
qed

theorem call_edges_suppressed_witness:
  "dependencies (analyze_dependencies example_graph) =
     [\<lparr> source = ''C.cpp'', target = ''A.h'', reason = ''include'', dep_line = Some 1 \<rparr>,
      \<lparr> source = ''B.cpp'', target = ''A.h'', reason = ''call'', dep_line = None \<rparr>]
   \<and> has_dependency (analyze_dependencies example_graph) ''C.cpp'' ''A.h''
   \<and> dependencies (call_step ''C.cpp'' (analyze_dependencies example_graph)
        (''A.h'', example_symbol ''f'' ''function''))
       = dependencies (analyze_dependencies example_graph)
   \<and> ''B.cpp'' \<noteq> ''A.h'' \<and> ''C.cpp'' \<noteq> ''B.cpp''"
proof -
  let ?e1 = "\<lparr> source = ''C.cpp'', target = ''A.h'', reason = ''include'', dep_line = Some 1 \<rparr>"
  let ?e2 = "\<lparr> source = ''B.cpp'', target = ''A.h'', reason = ''call'', dep_line = None \<rparr>"
  have run: "dependencies (analyze_dependencies example_graph) = [?e1] @ ?e2 # []"
    by code_simp
  have has: "has_dependency (analyze_dependencies example_graph) ''C.cpp'' ''A.h''"
    by (simp add: has_dependency_def run)
  note inst = call_edges_suppressed
    [where g = example_graph and pre = "[?e1]" and d = ?e2 and post = "[]"
       and s = "''C.cpp''" and t = "''A.h''" and g0 = "analyze_dependencies example_graph"
       and symbol_info = "example_symbol ''f'' ''function''"]
  from inst have step: "dependencies (call_step ''C.cpp'' (analyze_dependencies example_graph)
        (''A.h'', example_symbol ''f'' ''function''))
       = dependencies (analyze_dependencies example_graph)"
    using has by simp
  from inst run have "source ?e2 \<noteq> target ?e2 \<and> source ?e1 \<noteq> source ?e2"
    by simp
  with run has step show ?thesis by simp
qed

section \<open>Metrics\<close>

lemma map_filter_comprehension: "map h (filter P xs) = [h d. d \<leftarrow> xs, P d]"
  by (induction xs) simp_all

text \<open>
  C8. For a file \<open>f\<close> of the graph, the \<open>coupling\<close> entry of \<open>get_file_metrics\<close> is the
  number of entries of \<open>get_dependencies_of f\<close> plus the number of entries of
  \<open>get_dependents_of f\<close>, which are the targets of the edges with source \<open>f\<close> and the
  sources of the edges with target \<open>f\<close>.
\<close>

theorem file_metrics_coupling:
  assumes "dict_has f (files g)"
  shows "map_of (get_file_metrics g f) ''coupling''
           = Some (MInt (int (length (get_dependencies_of g f))
                         + int (length (get_dependents_of g f))))
         \<and> get_dependencies_of g f = [target d. d \<leftarrow> dependencies g, source d = f]
         \<and> get_dependents_of g f = [source d. d \<leftarrow> dependencies g, target d = f]"
proof -
  obtain symbols where "map_of (files g) f = Some symbols"
    using assms by (auto simp: dict_has_def)
  then have "map_of (get_file_metrics g f) ''coupling''
           = Some (MInt (int (length (get_dependencies_of g f))
                         + int (length (get_dependents_of g f))))"
    by (simp add: get_file_metrics_def Let_def)
  moreover have "get_dependencies_of g f = [target d. d \<leftarrow> dependencies g, source d = f]"
    unfolding get_dependencies_of_def by (rule map_filter_comprehension)
  moreover have "get_dependents_of g f = [source d. d \<leftarrow> dependencies g, target d = f]"
    unfolding get_dependents_of_def by (rule map_filter_comprehension)
  ultimately show ?thesis by simp
qed

theorem file_metrics_coupling_witness:
  "dict_has ''A.h'' (files (analyze_dependencies example_graph))
   \<and> map_of (get_file_metrics (analyze_dependencies example_graph) ''A.h'') ''coupling''
       = Some (MInt 2)
   \<and> get_dependencies_of (analyze_dependencies example_graph) ''A.h'' = []
   \<and> get_dependents_of (analyze_dependencies example_graph) ''A.h'' = [''C.cpp'', ''B.cpp'']"
proof -
  have h: "dict_has ''A.h'' (files (analyze_dependencies example_graph))"
    by code_simp
  have d1: "get_dependencies_of (analyze_dependencies example_graph) ''A.h'' = []"
    by code_simp
  have d2: "get_dependents_of (analyze_dependencies example_graph) ''A.h''
              = [''C.cpp'', ''B.cpp'']"
    by code_simp
  from file_metrics_coupling [OF h] h d1 d2 show ?thesis by simp
qed

text \<open>
  C10. For a path that is not a key of the file map, \<open>get_file_metrics\<close> returns the
  empty dictionary: it does not raise, and the result has none of the metric keys, so
  a caller that reads a count from it finds nothing there.
\<close>

theorem file_metrics_unknown_file:
  assumes "\<not> dict_has fp (files g)"
  shows "get_file_metrics g fp = [] \<and> map_of (get_file_metrics g fp) k = None"
  using assms by (simp add: get_file_metrics_def dict_has_def)

theorem file_metrics_unknown_file_witness:
  "\<not> dict_has ''D.h'' (files example_graph)
   \<and> get_file_metrics example_graph ''D.h'' = []
   \<and> map_of (get_file_metrics example_graph ''D.h'') ''coupling'' = None"
proof -
  have h: "\<not> dict_has ''D.h'' (files example_graph)"
    by code_simp
  from file_metrics_unknown_file [OF h, of "''coupling''"] h show ?thesis by simp
qed

section \<open>Include resolution\<close>

lemma first_match_Cons:
  "first_match (x # rest) = (case x of Some y \<Rightarrow> Some y | None \<Rightarrow> first_match rest)"
  by (cases x) simp_all

text \<open>
  C5. An include path that is a key of the file map resolves to itself, by the exact
  match, whatever the basename index or a suffix match would give; and the resolver is
  the five strategies (exact, basename index, suffix, relative to the source's
  directory, basename scan) tried in this order, the first match being the result.
\<close>

theorem resolve_include_strategy_order:
  "resolve_include g include_path source_file
     = resolve_include_spec g include_path source_file
   \<and> (dict_has include_path (files g) \<longrightarrow>
        resolve_include g include_path source_file = Some include_path)"
  by (simp add: resolve_include_def resolve_include_spec_def strategy_exact_def
      strategy_basename_def strategy_suffix_def strategy_relative_def strategy_rescan_def
      first_match_Cons Let_def split: option.splits)

theorem resolve_include_strategy_order_witness:
  "dict_has ''x/Utils.h'' (files example_include_graph)
   \<and> resolve_include example_include_graph ''x/Utils.h'' ''main.cpp'' = Some ''x/Utils.h''
   \<and> strategy_basename example_include_graph ''x/Utils.h'' ''main.cpp'' = Some ''z/Utils.h''
   \<and> strategy_suffix example_include_graph ''x/Utils.h'' ''main.cpp'' = Some ''y/x/Utils.h''"
proof -
  have h: "dict_has ''x/Utils.h'' (files example_include_graph)"
    by code_simp
  have b: "strategy_basename example_include_graph ''x/Utils.h'' ''main.cpp''
             = Some ''z/Utils.h''"
    by code_simp
  have s: "strategy_suffix example_include_graph ''x/Utils.h'' ''main.cpp''
             = Some ''y/x/Utils.h''"
    by code_simp
  from resolve_include_strategy_order
         [of example_include_graph "''x/Utils.h''" "''main.cpp''", THEN conjunct2, rule_format, OF h]
  have "resolve_include example_include_graph ''x/Utils.h'' ''main.cpp'' = Some ''x/Utils.h''" .
  with h b s show ?thesis by simp
qed

section \<open>Edges stay inside the file map\<close>

lemma dict_has_dict_set: "dict_has k' (dict_set k v d) \<longleftrightarrow> k' = k \<or> dict_has k' d"
  by (auto simp: dict_has_iff_keys keys_dict_set)

lemmas include_step_static = frame_files [OF include_step_frame]
lemmas call_step_static = frame_files [OF call_step_frame]
lemmas called_step_static = frame_files [OF called_step_frame]
lemmas file_step_static = frame_files [OF file_step_frame]
lemmas analyze_dependencies_static = frame_files [OF analyze_dependencies_frame]

lemma index_closed_static:
  assumes "files g' = files g" and "file_index g' = file_index g"
    and "symbol_index g' = symbol_index g"
  shows "index_closed g' = index_closed g"
  by (simp add: index_closed_def assms)

lemma resolve_include_closed:
  assumes closed: "index_closed g"
    and res: "resolve_include g include_path source_file = Some t"
  shows "dict_has t (files g)"
proof -
  have idx: "dict_has p (files g)" if "map_of (file_index g) n = Some p" for n p
    using closed map_of_SomeD [OF that] by (auto simp: index_closed_def)
  have scan: "dict_has fp (files g)" if "find P (dict_keys (files g)) = Some fp" for P fp
    using that by (auto simp: find_Some_iff dict_has_iff_keys)
  from res show ?thesis
    unfolding resolve_include_def Let_def
    by (auto split: if_splits option.splits dest: idx scan)
qed

lemma include_step_closed:
  assumes "index_closed g" and "edges_closed g" and "dict_has s (files g)"
  shows "edges_closed (include_step s g inc)"
proof (cases "resolve_include g (path inc) s")
  case None
  with assms show ?thesis by (simp add: include_step_def)
next
  case (Some t)
  then have "dict_has t (files g)" using assms(1) by (rule resolve_include_closed [rotated])
  with Some assms show ?thesis
    by (auto simp: include_step_def edges_closed_def)
qed

lemma call_step_closed:
  assumes "edges_closed g" and "dict_has s (files g)" and "dict_has (fst entry) (files g)"
  shows "edges_closed (call_step s g entry)"
  using assms by (cases entry) (auto simp: call_step_def edges_closed_def)

lemma foldl_invariant_in:
  assumes step: "\<And>g x. x \<in> set xs \<Longrightarrow> I g \<Longrightarrow> I (f g x)" and init: "I g"
  shows "I (foldl f g xs)"
  using assms
proof (induction xs arbitrary: g)
  case Nil
  then show ?case by simp
next
  case (Cons x xs)
  have "I (f g x)" by (rule Cons.prems(1)) (simp_all add: Cons.prems(2))
  moreover have "\<And>g y. y \<in> set xs \<Longrightarrow> I g \<Longrightarrow> I (f g y)"
    by (rule Cons.prems(1)) simp_all
  ultimately have "I (foldl f (f g x) xs)" by (intro Cons.IH)
  then show ?case by simp
qed

lemma called_step_closed:
  assumes ic: "index_closed g" and ec: "edges_closed g" and s: "dict_has s (files g)"
  shows "edges_closed (called_step s g c)"
proof (cases "map_of (symbol_index g) c")
  case None
  with ec show ?thesis by (simp add: called_step_def)
next
  case (Some entries)
  then have "(c, entries) \<in> set (symbol_index g)" by (rule map_of_SomeD)
  with ic have ent: "\<And>entry. entry \<in> set entries \<Longrightarrow> dict_has (fst entry) (files g)"
    unfolding index_closed_def entries_within_def by (metis mem_Collect_eq prod.collapse)
  let ?I = "\<lambda>g'. files g' = files g \<and> edges_closed g'"
  have "?I (foldl (call_step s) g entries)"
  proof (rule foldl_invariant_in [where I = ?I])
    fix g' entry
    assume "entry \<in> set entries" and "?I g'"
    then show "?I (call_step s g' entry)"
      using s ent by (simp add: call_step_static call_step_closed)
  next
    show "?I g" using ec by simp
  qed
  with Some show ?thesis by (simp add: called_step_def)
qed

lemma file_step_closed:
  assumes ic: "index_closed g" and ec: "edges_closed g" and s: "dict_has (fst item) (files g)"
  shows "edges_closed (file_step g item)"
proof -
  obtain fp symbols where item: "item = (fp, symbols)" by (cases item)
  let ?I = "\<lambda>g'. files g' = files g \<and> index_closed g' \<and> edges_closed g'"
  have 1: "?I (analyze_includes fp symbols g)"
    unfolding analyze_includes_def
  proof (rule foldl_invariant_in [where I = ?I])
    fix g' inc
    assume "?I g'"
    then show "?I (include_step fp g' inc)"
      using s by (simp add: item include_step_static include_step_closed
          index_closed_static [of "include_step fp g' inc" g'])
  next
    show "?I g" using ic ec by simp
  qed
  have "?I (analyze_function_calls fp symbols (analyze_includes fp symbols g))"
    unfolding analyze_function_calls_def
  proof (rule foldl_invariant_in [where I = ?I])
    fix g' c
    assume "?I g'"
    then show "?I (called_step fp g' c)"
      using s by (simp add: item called_step_static called_step_closed
          index_closed_static [of "called_step fp g' c" g'])
  next
    show "?I (analyze_includes fp symbols g)" by (rule 1)
  qed
  then show ?thesis by (simp add: file_step_def item)
qed

lemma analyze_dependencies_closed:
  assumes ic: "index_closed g"
  shows "edges_closed (analyze_dependencies g)"
proof -
  let ?I = "\<lambda>g'. files g' = files g \<and> index_closed g' \<and> edges_closed g'"
  have "?I (foldl file_step (g\<lparr>dependencies := []\<rparr>) (files g))"
  proof (rule foldl_invariant_in [where I = ?I])
    fix g' item
    assume "item \<in> set (files g)" and I: "?I g'"
    then have "dict_has (fst item) (files g')"
      by (simp add: dict_has_iff_keys dict_keys_def)
    with I show "?I (file_step g' item)"
      by (simp add: file_step_static file_step_closed
          index_closed_static [of "file_step g' item" g'])
  next
    show "?I (g\<lparr>dependencies := []\<rparr>)"
      using ic by (simp add: index_closed_def edges_closed_def)
  qed
  then show ?thesis by (simp add: analyze_dependencies_def)
qed

lemma index_symbol_closed:
  assumes "entries_within K idx" and "fp \<in> K"
  shows "entries_within K (index_symbol fp idx symbol)"
proof -
  define idx1 where
    "idx1 = (if \<not> dict_has (name symbol) idx then dict_set (name symbol) [] idx else idx)"
  have 1: "entries_within K idx1"
  proof (cases "dict_has (name symbol) idx")
    case True
    with assms(1) show ?thesis by (simp add: idx1_def)
  next
    case False
    have "(n, entries) \<in> set idx" if "(n, entries) \<in> set idx1" and "entries \<noteq> []"
      for n entries
      using that False set_dict_set_subset [of "name symbol" "[]" idx]
      by (auto simp: idx1_def)
    with assms(1) show ?thesis
      unfolding entries_within_def by fastforce
  qed
  show ?thesis
  proof (cases "map_of idx1 (name symbol)")
    case None
    with 1 show ?thesis by (simp add: index_symbol_def idx1_def [symmetric])
  next
    case (Some entries)
    then have "(name symbol, entries) \<in> set idx1" by (rule map_of_SomeD)
    with 1 have "\<forall>f s. (f, s) \<in> set (entries @ [(fp, symbol)]) \<longrightarrow> f \<in> K"
      using assms(2) unfolding entries_within_def by auto
    with 1 have "entries_within K (dict_set (name symbol) (entries @ [(fp, symbol)]) idx1)"
      using set_dict_set_subset [of "name symbol" "entries @ [(fp, symbol)]" idx1]
      unfolding entries_within_def by blast
    with Some show ?thesis by (simp add: index_symbol_def idx1_def [symmetric])
  qed
qed

lemma add_file_closed:
  assumes "index_closed g" and "edges_closed g"
  shows "index_closed (add_file fp symbols g) \<and> edges_closed (add_file fp symbols g)"
proof -
  let ?K = "{k. dict_has k (dict_set fp symbols (files g))}"
  have "entries_within ?K (symbol_index g)"
    using assms(1) unfolding index_closed_def entries_within_def
    by (auto simp: dict_has_dict_set)
  then have "entries_within ?K (foldl (index_symbol fp) (symbol_index g)
        (functions' symbols @ classes symbols @ structs symbols))"
    by (rule foldl_invariant_in [where I = "entries_within ?K", rotated])
       (simp add: index_symbol_closed dict_has_dict_set)
  moreover have "\<forall>n p. (n, p) \<in> set (dict_set (path_name fp) fp (file_index g)) \<longrightarrow>
      dict_has p (dict_set fp symbols (files g))"
    using assms(1) set_dict_set_subset [of "path_name fp" fp "file_index g"]
    unfolding index_closed_def by (auto simp: dict_has_dict_set)
  ultimately have "index_closed (add_file fp symbols g)"
    by (simp add: index_closed_def add_file_def)
  moreover have "edges_closed (add_file fp symbols g)"
    using assms(2) by (simp add: edges_closed_def add_file_def dict_has_dict_set)
  ultimately show ?thesis ..
qed

lemma reachable_closed: "reachable g \<Longrightarrow> index_closed g \<and> edges_closed g"
proof (induction rule: reachable.induct)
  case reachable_init
  show ?case
    by (simp add: index_closed_def edges_closed_def entries_within_def empty_graph_def)
next
  case (reachable_add g fp symbols)
  then show ?case by (simp add: add_file_closed)
next
  case (reachable_analyze g)
  then show ?case
    by (simp add: analyze_dependencies_closed analyze_dependencies_static
        index_closed_static [of "analyze_dependencies g" g])
qed

text \<open>
  C6. After an analysis pass on a graph built through the interface, both ends of
  every edge are keys of the file map; and an include whose resolution finds nothing,
  or a called name the symbol index does not hold, leaves the graph as it is, adding
  no edge.
\<close>

theorem analyze_dependencies_edges_closed:
  assumes "reachable g"
  shows "(\<forall>d \<in> set (dependencies (analyze_dependencies g)).
            dict_has (source d) (files (analyze_dependencies g))
            \<and> dict_has (target d) (files (analyze_dependencies g)))
         \<and> (resolve_include g0 (path inc) s = None \<longrightarrow> include_step s g0 inc = g0)
         \<and> (map_of (symbol_index g0) c = None \<longrightarrow> called_step s g0 c = g0)"
proof -
  have "reachable (analyze_dependencies g)"
    using assms by (rule reachable_analyze)
  then have "edges_closed (analyze_dependencies g)"
    by (simp add: reachable_closed)
  then show ?thesis
    by (simp add: edges_closed_def include_step_def called_step_def)
qed

theorem analyze_dependencies_edges_closed_witness:
  "reachable example_graph
   \<and> dependencies (analyze_dependencies example_graph) =
       [\<lparr> source = ''C.cpp'', target = ''A.h'', reason = ''include'', dep_line = Some 1 \<rparr>,
        \<lparr> source = ''B.cpp'', target = ''A.h'', reason = ''call'', dep_line = None \<rparr>]
   \<and> dict_has ''C.cpp'' (files (analyze_dependencies example_graph))
   \<and> dict_has ''B.cpp'' (files (analyze_dependencies example_graph))
   \<and> dict_has ''A.h'' (files (analyze_dependencies example_graph))
   \<and> resolve_include example_graph ''vector'' ''B.cpp'' = None
   \<and> include_step ''B.cpp'' example_graph
         \<lparr> path = ''vector'', inc_line = 2, is_system = True \<rparr> = example_graph
   \<and> map_of (symbol_index example_graph) ''printf'' = None
   \<and> called_step ''B.cpp'' example_graph ''printf'' = example_graph"
proof -
  have reach: "reachable example_graph"
    unfolding example_graph_def by (intro reachable_add reachable_init)
  have run: "dependencies (analyze_dependencies example_graph) =
       [\<lparr> source = ''C.cpp'', target = ''A.h'', reason = ''include'', dep_line = Some 1 \<rparr>,
        \<lparr> source = ''B.cpp'', target = ''A.h'', reason = ''call'', dep_line = None \<rparr>]"
    by code_simp
  have miss: "resolve_include example_graph ''vector'' ''B.cpp'' = None"
    by code_simp
  have undefined_name: "map_of (symbol_index example_graph) ''printf'' = None"
    by code_simp
  note inst = analyze_dependencies_edges_closed
    [OF reach, where ?g0.0 = example_graph and s = "''B.cpp''" and c = "''printf''"
       and inc = "\<lparr> path = ''vector'', inc_line = 2, is_system = True \<rparr>"]
  from inst run miss undefined_name reach show ?thesis by simp
qed

section \<open>File classification in the export\<close>

lemma endswith_iff_suffix: "endswith s suf \<longleftrightarrow> suffix suf s"
proof
  assume "endswith s suf"
  then have "s = take (length s - length suf) s @ suf"
    by (metis append_take_drop_id endswith_def)
  then show "suffix suf s" by (rule suffixI)
next
  assume "suffix suf s"
  then obtain zs where "s = zs @ suf" by (auto simp: suffix_def)
  then show "endswith s suf" by (simp add: endswith_def)
qed

lemma startswith_iff_prefix: "startswith s p \<longleftrightarrow> prefix p s"
  by (induction s p rule: startswith.induct) auto

lemma contains_iff_sublist: "contains s sub \<longleftrightarrow> sublist sub s"
proof (induction s)
  case Nil
  show ?case by simp
next
  case (Cons x xs)
  then show ?case
    by (simp add: startswith_iff_prefix sublist_Cons_right)
qed

lemma if_chain_range:
  "(if a then x1 else if b then x2 else if c then x3 else if d then x4 else x5)
     \<in> {x1, x2, x3, x4, x5}"
  by simp

lemma nodes_export_to_dict: "nodes (export_to_dict g) = map (export_node g) (files g)"
  by (simp add: export_to_dict_def Let_def)

text \<open>
  C9, as the code has it. The labels the exporter writes for build scripts and JSON
  files are \<open>cmake\<close> and \<open>json\<close>. Every node's type is one of \<open>header\<close>, \<open>source\<close>,
  \<open>cmake\<close>, \<open>json\<close>, \<open>other\<close>, decided by the node's path in this order: a suffix
  \<open>.h\<close>, \<open>.hpp\<close> or \<open>.hh\<close> gives \<open>header\<close>; otherwise a suffix \<open>.cpp\<close>, \<open>.cc\<close>,
  \<open>.cxx\<close> or \<open>.c\<close> gives \<open>source\<close>; otherwise a path containing \<open>CMakeLists\<close> or
  with suffix \<open>.cmake\<close> gives \<open>cmake\<close>; otherwise a suffix \<open>.json\<close> gives \<open>json\<close>;
  every other path gives \<open>other\<close>.
\<close>

theorem file_type_classification:
  "file_type fp =
     (if suffix ''.h'' fp \<or> suffix ''.hpp'' fp \<or> suffix ''.hh'' fp then ''header''
      else if suffix ''.cpp'' fp \<or> suffix ''.cc'' fp \<or> suffix ''.cxx'' fp \<or> suffix ''.c'' fp
        then ''source''
      else if sublist ''CMakeLists'' fp \<or> suffix ''.cmake'' fp then ''cmake''
      else if suffix ''.json'' fp then ''json''
      else ''other'')
   \<and> (n \<in> set (nodes (export_to_dict g)) \<longrightarrow>
        n_type n = file_type (n_id n)
        \<and> n_type n \<in> {''header'', ''source'', ''cmake'', ''json'', ''other''})"
proof
  show "file_type fp =
     (if suffix ''.h'' fp \<or> suffix ''.hpp'' fp \<or> suffix ''.hh'' fp then ''header''
      else if suffix ''.cpp'' fp \<or> suffix ''.cc'' fp \<or> suffix ''.cxx'' fp \<or> suffix ''.c'' fp
        then ''source''
      else if sublist ''CMakeLists'' fp \<or> suffix ''.cmake'' fp then ''cmake''
      else if suffix ''.json'' fp then ''json''
      else ''other'')"
    unfolding file_type_def endswith_any_def
    by (simp only: list_ex_Nil_iff list_ex_Cons_iff endswith_iff_suffix contains_iff_sublist simp_thms)
next
  have range: "file_type p \<in> {''header'', ''source'', ''cmake'', ''json'', ''other''}" for p
    unfolding file_type_def by (rule if_chain_range)
  show "n \<in> set (nodes (export_to_dict g)) \<longrightarrow>
        n_type n = file_type (n_id n)
        \<and> n_type n \<in> {''header'', ''source'', ''cmake'', ''json'', ''other''}"
  proof
    assume "n \<in> set (nodes (export_to_dict g))"
    then obtain item where "n = export_node g item"
      by (auto simp: nodes_export_to_dict)
    then have "n_type n = file_type (n_id n)"
      by (cases item) (simp add: export_node_def)
    with range [of "n_id n"] show "n_type n = file_type (n_id n)
        \<and> n_type n \<in> {''header'', ''source'', ''cmake'', ''json'', ''other''}"
      by simp
  qed
qed

theorem file_type_classification_witness:
  "export_node example_build_graph (''CMakeLists.txt'', example_file ''CMakeLists.txt'' [] [] [])
     \<in> set (nodes (export_to_dict example_build_graph))
   \<and> n_id (export_node example_build_graph
        (''CMakeLists.txt'', example_file ''CMakeLists.txt'' [] [] [])) = ''CMakeLists.txt''
   \<and> n_type (export_node example_build_graph
        (''CMakeLists.txt'', example_file ''CMakeLists.txt'' [] [] [])) = ''cmake''
   \<and> file_type ''CMakeLists.txt'' = ''cmake''"
proof -
  let ?n = "export_node example_build_graph
              (''CMakeLists.txt'', example_file ''CMakeLists.txt'' [] [] [])"
  have mem: "?n \<in> set (nodes (export_to_dict example_build_graph))"
    by (simp add: nodes_export_to_dict example_build_graph_def add_file_def empty_graph_def)
  have id: "n_id ?n = ''CMakeLists.txt''"
    by (simp add: export_node_def)
  have ft: "file_type ''CMakeLists.txt'' = ''cmake''"
    by code_simp
  from file_type_classification [of "''CMakeLists.txt''" ?n example_build_graph,
         THEN conjunct2, rule_format, OF mem]
  have "n_type ?n = file_type (n_id ?n)" by simp
  with mem id ft show ?thesis by simp
qed

text \<open>
  The type the exported document gives the nodes of a graph holding \<open>CMakeLists.txt\<close>
  and \<open>data/config.json\<close>: neither label is among \<open>header\<close>, \<open>source\<close>,
  \<open>buildScript\<close>, \<open>jsonData\<close>, \<open>other\<close>.
\<close>

theorem file_type_labels_counterexample:
  "map n_type (nodes (export_to_dict example_build_graph)) = [''cmake'', ''json'']
   \<and> ''cmake'' \<notin> {''header'', ''source'', ''buildScript'', ''jsonData'', ''other''}
   \<and> ''json'' \<notin> {''header'', ''source'', ''buildScript'', ''jsonData'', ''other''}"
proof -
  have "map n_type (nodes (export_to_dict example_build_graph)) = [''cmake'', ''json'']"
    by code_simp
  then show ?thesis by simp
qed

section \<open>Adding a file again\<close>

lemma lookup_symbol_index_symbol:
  "lookup_symbol (index_symbol fp idx symbol) n
     = lookup_symbol idx n @ (if name symbol = n then [(fp, symbol)] else [])"
proof (cases "map_of idx (name symbol)")
  case None
  then show ?thesis
    by (auto simp: index_symbol_def lookup_symbol_def dict_has_def map_of_dict_set)
next
  case (Some entries)
  then show ?thesis
    by (auto simp: index_symbol_def lookup_symbol_def dict_has_def map_of_dict_set)
qed

lemma lookup_symbol_foldl:
  "lookup_symbol (foldl (index_symbol fp) idx syms) n
     = lookup_symbol idx n @ map (Pair fp) (filter (\<lambda>s. name s = n) syms)"
  by (induction syms arbitrary: idx) (simp_all add: lookup_symbol_index_symbol)

lemma lookup_symbol_add_file:
  "lookup_symbol (symbol_index (add_file fp symbols g)) n
     = lookup_symbol (symbol_index g) n @ entries_for fp symbols n"
  by (simp add: add_file_def lookup_symbol_foldl entries_for_def)

text \<open>
  C1, as the code has it. After \<open>add_file p s1\<close> and then \<open>add_file p s2\<close> the file
  map holds \<open>s2\<close> for \<open>p\<close>, the path keeps its place among the keys, and the file
  index maps the basename of \<open>p\<close> to \<open>p\<close>. The symbol index is append-only: for every
  name it holds what it held before, then the entries of \<open>s1\<close>, then those of \<open>s2\<close>;
  nothing is removed.
\<close>

theorem add_file_twice:
  "map_of (files (add_file p s2 (add_file p s1 g))) p = Some s2
   \<and> dict_keys (files (add_file p s2 (add_file p s1 g))) = dict_keys (files (add_file p s1 g))
   \<and> map_of (file_index (add_file p s2 (add_file p s1 g))) (path_name p) = Some p
   \<and> lookup_symbol (symbol_index (add_file p s2 (add_file p s1 g))) n
       = lookup_symbol (symbol_index g) n @ entries_for p s1 n @ entries_for p s2 n"
proof -
  have "dict_keys (files (add_file p s2 (add_file p s1 g))) = dict_keys (files (add_file p s1 g))"
    by (simp add: add_file_def dict_keys_dict_set keys_dict_set)
  moreover have "map_of (files (add_file p s2 (add_file p s1 g))) p = Some s2"
    by (simp add: add_file_def map_of_dict_set)
  moreover have "map_of (file_index (add_file p s2 (add_file p s1 g))) (path_name p) = Some p"
    by (simp add: add_file_def map_of_dict_set)
  ultimately show ?thesis
    by (simp add: lookup_symbol_add_file)
qed

text \<open>
  Adding \<open>A.h\<close> with a function \<open>f\<close> and then again without it leaves the entry of
  \<open>f\<close> for \<open>A.h\<close> in the symbol index, although the file's symbols no longer hold
  \<open>f\<close>; adding it twice with \<open>f\<close> leaves the entry twice, so that adding twice is
  not adding once.
\<close>

theorem add_file_twice_counterexample:
  "map_of (files (add_file ''A.h'' (example_file ''A.h'' [] [] [])
      (add_file ''A.h'' (example_file ''A.h'' [example_symbol ''f'' ''function''] [] [])
         empty_graph))) ''A.h''
     = Some (example_file ''A.h'' [] [] [])
   \<and> entries_for ''A.h'' (example_file ''A.h'' [] [] []) ''f'' = []
   \<and> lookup_symbol (symbol_index (add_file ''A.h'' (example_file ''A.h'' [] [] [])
      (add_file ''A.h'' (example_file ''A.h'' [example_symbol ''f'' ''function''] [] [])
         empty_graph))) ''f''
     = [(''A.h'', example_symbol ''f'' ''function'')]
   \<and> lookup_symbol (symbol_index
      (add_file ''A.h'' (example_file ''A.h'' [example_symbol ''f'' ''function''] [] [])
        (add_file ''A.h'' (example_file ''A.h'' [example_symbol ''f'' ''function''] [] [])
           empty_graph))) ''f''
     = [(''A.h'', example_symbol ''f'' ''function''), (''A.h'', example_symbol ''f'' ''function'')]
   \<and> add_file ''A.h'' (example_file ''A.h'' [example_symbol ''f'' ''function''] [] [])
        (add_file ''A.h'' (example_file ''A.h'' [example_symbol ''f'' ''function''] [] [])
           empty_graph)
     \<noteq> add_file ''A.h'' (example_file ''A.h'' [example_symbol ''f'' ''function''] [] [])
           empty_graph"
proof (intro conjI)
  have "lookup_symbol (symbol_index
      (add_file ''A.h'' (example_file ''A.h'' [example_symbol ''f'' ''function''] [] [])
        (add_file ''A.h'' (example_file ''A.h'' [example_symbol ''f'' ''function''] [] [])
           empty_graph))) ''f''
     \<noteq> lookup_symbol (symbol_index
        (add_file ''A.h'' (example_file ''A.h'' [example_symbol ''f'' ''function''] [] [])
           empty_graph)) ''f''"
    by code_simp
  then show "add_file ''A.h'' (example_file ''A.h'' [example_symbol ''f'' ''function''] [] [])
        (add_file ''A.h'' (example_file ''A.h'' [example_symbol ''f'' ''function''] [] [])
           empty_graph)
     \<noteq> add_file ''A.h'' (example_file ''A.h'' [example_symbol ''f'' ''function''] [] [])
           empty_graph"
    by auto
qed code_simp+

section \<open>Coupling ranking\<close>

lemma foldl_dict_set_fresh:
  assumes "distinct ks" and "set ks \<inter> set (dict_keys acc) = {}"
  shows "foldl (\<lambda>c k. dict_set k (h k) c) acc ks = acc @ map (\<lambda>k. (k, h k)) ks"
  using assms
proof (induction ks arbitrary: acc)
  case Nil
  show ?case by simp
next
  case (Cons k ks)
  have fresh: "dict_set k (h k) acc = acc @ [(k, h k)]"
    using Cons.prems(2) by (intro dict_set_fresh) auto
  have "set ks \<inter> set (dict_keys (acc @ [(k, h k)])) = {}"
    using Cons.prems by (auto simp: dict_keys_def)
  with Cons.prems(1) have
    "foldl (\<lambda>c k. dict_set k (h k) c) (acc @ [(k, h k)]) ks
       = (acc @ [(k, h k)]) @ map (\<lambda>k. (k, h k)) ks"
    by (intro Cons.IH) simp_all
  with fresh show ?case by simp
qed

lemma coupling_dict_items:
  "distinct (dict_keys (files g)) \<Longrightarrow> coupling_dict g = coupling_items g"
  unfolding coupling_dict_def coupling_items_def
  using foldl_dict_set_fresh [of "dict_keys (files g)" "[]" "coupling_of g"]
  by (simp add: dict_keys_def)

lemma mset_sorted_reverse: "mset (sorted_reverse f xs) = mset xs"
  by (simp add: sorted_reverse_def)

lemma sorted_reverse_descending: "sorted_wrt (\<lambda>a b. f b \<le> f a) (sorted_reverse f xs)"
proof -
  have "sorted (map f (sort_key f (rev xs)))" by simp
  then show ?thesis
    by (simp add: sorted_reverse_def sorted_wrt_rev sorted_map)
qed

lemma sorted_reverse_stable:
  "filter (\<lambda>x. f x = c) (sorted_reverse f xs) = filter (\<lambda>x. f x = c) xs"
proof -
  have "filter (\<lambda>x. f x = c) (sorted_reverse f xs)
          = rev (filter (\<lambda>x. f x = c) (sort_key f (rev xs)))"
    by (simp add: sorted_reverse_def rev_filter)
  also have "\<dots> = rev (filter (\<lambda>x. f x = c) (rev xs))"
    by (simp only: sort_key_stable)
  also have "\<dots> = filter (\<lambda>x. f x = c) xs"
    by (simp add: rev_filter)
  finally show ?thesis .
qed

lemma length_sorted_reverse: "length (sorted_reverse f xs) = length xs"
  by (simp add: sorted_reverse_def)

lemma full_ranking_sorted:
  assumes "distinct (dict_keys (files g))"
  shows "full_ranking g = sorted_reverse snd (coupling_items g)"
proof -
  have "length (sorted_reverse snd (coupling_items g)) = length (files g)"
    by (simp add: length_sorted_reverse coupling_items_def dict_keys_def)
  then show ?thesis
    by (simp add: full_ranking_def get_most_coupled_files_def slice_to_def
        coupling_dict_items [OF assms])
qed

text \<open>
  C7, as the code has it. For a limit that is not negative,
  \<open>get_most_coupled_files limit\<close> returns the first \<open>limit\<close> entries, so at most
  \<open>limit\<close> of them, of the ranking of all files: every file of the file map once,
  paired with its coupling (dependencies plus dependents), in descending order of
  coupling, the files of equal coupling in the insertion order of the file map.
\<close>

theorem most_coupled_files_ranked:
  assumes "distinct (dict_keys (files g))" and "0 \<le> limit"
  shows "get_most_coupled_files g limit = take (nat limit) (full_ranking g)
         \<and> int (length (get_most_coupled_files g limit)) \<le> limit
         \<and> mset (full_ranking g) = mset (coupling_items g)
         \<and> sorted_wrt (\<lambda>a b. snd b \<le> snd a) (full_ranking g)
         \<and> (\<forall>c. filter (\<lambda>x. snd x = c) (full_ranking g)
                  = filter (\<lambda>x. snd x = c) (coupling_items g))
         \<and> coupling_items g
             = map (\<lambda>fp. (fp, int (length (get_dependencies_of g fp))
                               + int (length (get_dependents_of g fp))))
                   (dict_keys (files g))"
proof -
  note full = full_ranking_sorted [OF assms(1)]
  have "get_most_coupled_files g limit = take (nat limit) (full_ranking g)"
    using assms(2)
    by (simp add: full get_most_coupled_files_def slice_to_def coupling_dict_items [OF assms(1)])
  moreover from this have "int (length (get_most_coupled_files g limit)) \<le> limit"
    using assms(2) by simp
  moreover have "mset (full_ranking g) = mset (coupling_items g)"
    by (simp only: full mset_sorted_reverse)
  moreover have "sorted_wrt (\<lambda>a b. snd b \<le> snd a) (full_ranking g)"
    by (simp only: full sorted_reverse_descending)
  moreover have "\<forall>c. filter (\<lambda>x. snd x = c) (full_ranking g)
                  = filter (\<lambda>x. snd x = c) (coupling_items g)"
    by (simp only: full sorted_reverse_stable simp_thms)
  moreover have "coupling_items g
             = map (\<lambda>fp. (fp, int (length (get_dependencies_of g fp))
                               + int (length (get_dependents_of g fp))))
                   (dict_keys (files g))"
    by (simp add: coupling_items_def coupling_of_def)
  ultimately show ?thesis by blast
qed

theorem most_coupled_files_ranked_witness:
  "distinct (dict_keys (files example_star_graph)) \<and> (0::int) \<le> 3
   \<and> coupling_items example_star_graph
       = [(''a.h'', 1), (''b.h'', 1), (''hub.cpp'', 4), (''c.h'', 2), (''d.h'', 2)]
   \<and> full_ranking example_star_graph
       = [(''hub.cpp'', 4), (''c.h'', 2), (''d.h'', 2), (''a.h'', 1), (''b.h'', 1)]
   \<and> get_most_coupled_files example_star_graph 3
       = [(''hub.cpp'', 4), (''c.h'', 2), (''d.h'', 2)]"
proof -
  have d: "distinct (dict_keys (files example_star_graph))"
    by code_simp
  have l: "(0::int) \<le> 3" by simp
  have items: "coupling_items example_star_graph
       = [(''a.h'', 1), (''b.h'', 1), (''hub.cpp'', 4), (''c.h'', 2), (''d.h'', 2)]"
    by code_simp
  have full: "full_ranking example_star_graph
       = [(''hub.cpp'', 4), (''c.h'', 2), (''d.h'', 2), (''a.h'', 1), (''b.h'', 1)]"
    by code_simp
  from most_coupled_files_ranked [OF d l]
  have "get_most_coupled_files example_star_graph 3 = take (nat 3) (full_ranking example_star_graph)"
    by blast
  with d items full show ?thesis by (simp add: numeral_3_eq_3)
qed

text \<open>
  The limit is a Python integer and the slice \<open>[:limit]\<close> takes a negative one as
  counted from the end: with limit \<open>-1\<close> the star graph of five files gives four
  entries, the ranking without its last, which is more than the limit.
\<close>

theorem most_coupled_files_negative_limit_counterexample:
  "get_most_coupled_files example_star_graph (- 1)
     = [(''hub.cpp'', 4), (''c.h'', 2), (''d.h'', 2), (''a.h'', 1)]
   \<and> \<not> int (length (get_most_coupled_files example_star_graph (- 1))) \<le> - 1"
proof -
  have "get_most_coupled_files example_star_graph (- 1)
     = [(''hub.cpp'', 4), (''c.h'', 2), (''d.h'', 2), (''a.h'', 1)]"
    by code_simp
  then show ?thesis by simp
qed

section \<open>Cycles\<close>

subsection \<open>Walks\<close>

lemma walk_append:
  "walk E (p @ q) \<longleftrightarrow>
     walk E p \<and> walk E q \<and> (p \<noteq> [] \<and> q \<noteq> [] \<longrightarrow> (last p, hd q) \<in> E)"
proof (induction E p rule: walk.induct)
  case (1 E)
  show ?case by simp
next
  case (2 E x)
  show ?case by (cases q) auto
next
  case (3 E x y rest)
  then show ?case by auto
qed

lemma walk_out_edge:
  assumes "walk E (p @ [z])" and "x \<in> set p"
  shows "\<exists>y. (x, y) \<in> E"
  using assms
proof (induction p)
  case Nil
  then show ?case by simp
next
  case (Cons a p)
  show ?case
  proof (cases p)
    case Nil
    with Cons.prems show ?thesis by auto
  next
    case (Cons b p')
    with Cons.prems Cons.IH show ?thesis by auto
  qed
qed

lemma is_simple_cycle_rotate1:
  assumes "is_simple_cycle E c"
  shows "is_simple_cycle E (rotate1 c)"
proof (cases c)
  case Nil
  with assms show ?thesis by (simp add: is_simple_cycle_def)
next
  case (Cons x xs)
  show ?thesis
  proof (cases xs)
    case Nil
    with Cons assms show ?thesis by (simp add: is_simple_cycle_def)
  next
    case (Cons y ys)
    with \<open>c = x # xs\<close> assms have d: "distinct (x # y # ys)"
      and w: "walk E ([x] @ (y # ys @ [x]))"
      by (simp_all add: is_simple_cycle_def)
    from w have "walk E (y # ys @ [x])" and "(x, y) \<in> E"
      by (simp_all add: walk_append [of E "[x]"])
    then have "walk E ((y # ys @ [x]) @ [y])"
      using walk_append [of E "y # ys @ [x]" "[y]"] by simp
    with d Cons \<open>c = x # xs\<close> show ?thesis
      by (auto simp: is_simple_cycle_def)
  qed
qed

lemma is_simple_cycle_rotate:
  "is_simple_cycle E c \<Longrightarrow> is_simple_cycle E (rotate n c)"
  by (induction n) (simp_all add: is_simple_cycle_rotate1)

subsection \<open>Simple paths\<close>

lemma simple_paths_iff:
  assumes "distinct avail" and "u \<notin> set avail"
  shows "p \<in> set (simple_paths G avail u) \<longleftrightarrow>
           (\<exists>q. p = u # q \<and> distinct q \<and> set q \<subseteq> set avail \<and> walk (graph_edges G) (u # q))"
  using assms
proof (induction G avail u arbitrary: p rule: simple_paths.induct)
  case (1 G avail u)
  let ?next = "filter (\<lambda>w. w \<in> set avail) (successors G u)"
  have IH: "p' \<in> set (simple_paths G (remove1 w avail) w) \<longleftrightarrow>
           (\<exists>q. p' = w # q \<and> distinct q \<and> set q \<subseteq> set avail - {w}
                \<and> walk (graph_edges G) (w # q))"
    if "w \<in> set ?next" for w p'
    using "1.IH" [OF that, of p'] "1.prems"(1) by simp
  have unfold: "p \<in> set (simple_paths G avail u) \<longleftrightarrow>
      p = [u] \<or> (\<exists>w \<in> set ?next. \<exists>p' \<in> set (simple_paths G (remove1 w avail) w). p = u # p')"
    by (subst simple_paths.simps) auto
  show ?case
  proof
    assume "p \<in> set (simple_paths G avail u)"
    then consider "p = [u]"
      | w p' where "w \<in> set ?next" "p' \<in> set (simple_paths G (remove1 w avail) w)" "p = u # p'"
      using unfold by blast
    then show "\<exists>q. p = u # q \<and> distinct q \<and> set q \<subseteq> set avail
                 \<and> walk (graph_edges G) (u # q)"
    proof cases
      case 1
      then show ?thesis by simp
    next
      case 2
      from IH [OF 2(1)] 2(2) obtain q where
        q: "p' = w # q" "distinct q" "set q \<subseteq> set avail - {w}" "walk (graph_edges G) (w # q)"
        by blast
      from 2(1) have "w \<in> set avail" "(u, w) \<in> graph_edges G"
        by (simp_all add: graph_edges_def)
      with q 2(3) show ?thesis by auto
    qed
  next
    assume "\<exists>q. p = u # q \<and> distinct q \<and> set q \<subseteq> set avail \<and> walk (graph_edges G) (u # q)"
    then obtain q where
      q: "p = u # q" "distinct q" "set q \<subseteq> set avail" "walk (graph_edges G) (u # q)"
      by blast
    show "p \<in> set (simple_paths G avail u)"
    proof (cases q)
      case Nil
      with q(1) unfold show ?thesis by simp
    next
      case (Cons w q')
      with q have w: "w \<in> set ?next"
        by (simp add: graph_edges_def)
      have "w # q' \<in> set (simple_paths G (remove1 w avail) w)"
        using IH [OF w, of "w # q'"] q Cons by auto
      with w q(1) Cons unfold show ?thesis by blast
    qed
  qed
qed

subsection \<open>Enumeration of simple cycles\<close>

lemma simple_cycles_on_sound:
  assumes "distinct vs" and "c \<in> set (simple_cycles_on G vs)"
  shows "is_simple_cycle (graph_edges G) c"
  using assms
proof (induction vs)
  case Nil
  then show ?case by simp
next
  case (Cons v vs)
  show ?case
  proof (cases "c \<in> set (simple_cycles_on G vs)")
    case True
    with Cons show ?thesis by simp
  next
    case False
    with Cons.prems(2) have c: "c \<in> set (simple_paths G vs v)"
      and closing: "v \<in> set (successors G (last c))"
      by simp_all
    from Cons.prems(1) have "distinct vs" "v \<notin> set vs" by simp_all
    from c obtain q where q: "c = v # q" "distinct q" "set q \<subseteq> set vs"
      "walk (graph_edges G) (v # q)"
      unfolding simple_paths_iff [OF \<open>distinct vs\<close> \<open>v \<notin> set vs\<close>] by blast
    from closing have "(last c, v) \<in> graph_edges G" by (simp add: graph_edges_def)
    with q have "walk (graph_edges G) (c @ [hd c])"
      using walk_append [of "graph_edges G" c "[hd c]"] by simp
    moreover have "distinct c" using q \<open>v \<notin> set vs\<close> by auto
    ultimately show ?thesis using q(1) by (simp add: is_simple_cycle_def)
  qed
qed

lemma simple_cycles_on_complete:
  assumes "distinct vs" and "is_simple_cycle (graph_edges G) c" and "set c \<subseteq> set vs"
  shows "\<exists>n. rotate n c \<in> set (simple_cycles_on G vs)"
  using assms(1,3)
proof (induction vs)
  case Nil
  with assms(2) show ?case by (simp add: is_simple_cycle_def)
next
  case (Cons v vs)
  from Cons.prems(1) have dvs: "distinct vs" and v: "v \<notin> set vs" by simp_all
  show ?case
  proof (cases "v \<in> set c")
    case False
    with Cons.prems(2) have "set c \<subseteq> set vs" by auto
    with Cons.IH dvs obtain n where "rotate n c \<in> set (simple_cycles_on G vs)" by blast
    then have "rotate n c \<in> set (simple_cycles_on G (v # vs))" by simp
    then show ?thesis ..
  next
    case True
    then obtain c1 c2 where split: "c = c1 @ v # c2" by (auto simp: in_set_conv_decomp)
    let ?r = "v # c2 @ c1"
    have rot: "rotate (length c1) c = ?r"
      using rotate_append [of c1 "v # c2"] by (simp add: split)
    have cyc: "is_simple_cycle (graph_edges G) ?r"
      using is_simple_cycle_rotate [OF assms(2), of "length c1"] by (simp only: rot)
    then have d: "distinct ?r" and w: "walk (graph_edges G) (?r @ [v])"
      by (simp_all add: is_simple_cycle_def)
    from w have w1: "walk (graph_edges G) ?r" and closing: "(last ?r, v) \<in> graph_edges G"
      using walk_append [of "graph_edges G" ?r "[v]"] by simp_all
    have sub: "set (c2 @ c1) \<subseteq> set vs"
      using Cons.prems(2) d by (auto simp: split)
    have "?r \<in> set (simple_paths G vs v)"
      unfolding simple_paths_iff [OF dvs v] using d sub w1 by auto
    moreover have "v \<in> set (successors G (last ?r))"
      using closing by (simp add: graph_edges_def)
    ultimately have "rotate (length c1) c \<in> set (simple_cycles_on G (v # vs))"
      by (simp only: rot simple_cycles_on.simps set_append set_filter) blast
    then show ?thesis ..
  qed
qed

subsection \<open>The graph of the dependencies\<close>

lemma successors_add_node: "successors (add_node u G) x = successors G x"
  by (auto simp: add_node_def successors_def map_of_dict_set dict_has_def
      split: option.splits)

lemma keys_add_node: "set (dict_keys (add_node u G)) = insert u (set (dict_keys G))"
  by (auto simp: add_node_def keys_dict_set dict_has_iff_keys)

lemma distinct_keys_add_node: "distinct (dict_keys G) \<Longrightarrow> distinct (dict_keys (add_node u G))"
  by (simp add: add_node_def distinct_keys_dict_set)

lemma successors_dict_set:
  "successors (dict_set u vs G) x = (if x = u then vs else successors G x)"
  by (simp add: successors_def map_of_dict_set)

lemma successors_add_edge:
  "successors (add_edge u v G) x =
     (if x = u \<and> v \<notin> set (successors G u) then successors G u @ [v] else successors G x)"
  by (simp add: add_edge_def Let_def successors_add_node successors_dict_set)

lemma keys_add_edge: "set (dict_keys (add_edge u v G)) = {u, v} \<union> set (dict_keys G)"
  by (auto simp: add_edge_def Let_def keys_dict_set keys_add_node)

lemma distinct_keys_add_edge: "distinct (dict_keys G) \<Longrightarrow> distinct (dict_keys (add_edge u v G))"
  by (simp add: add_edge_def Let_def distinct_keys_dict_set distinct_keys_add_node)

lemma graph_edges_add_edge: "graph_edges (add_edge u v G) = insert (u, v) (graph_edges G)"
  by (auto simp: graph_edges_def successors_add_edge split: if_splits)

lemma build_digraph_snoc:
  "build_digraph (ds @ [d]) = add_edge (source d) (target d) (build_digraph ds)"
  by (simp add: build_digraph_def)

lemma build_digraph_facts:
  "graph_edges (build_digraph ds) = dep_edges ds
   \<and> distinct (dict_keys (build_digraph ds))
   \<and> set (dict_keys (build_digraph ds)) = fst ` dep_edges ds \<union> snd ` dep_edges ds"
proof (induction ds rule: rev_induct)
  case Nil
  show ?case
    by (simp add: build_digraph_def graph_edges_def successors_def dep_edges_def dict_keys_def)
next
  case (snoc d ds)
  have "dep_edges (ds @ [d]) = insert (source d, target d) (dep_edges ds)"
    by (auto simp: dep_edges_def)
  with snoc show ?case
    by (auto simp: build_digraph_snoc graph_edges_add_edge distinct_keys_add_edge keys_add_edge)
qed

lemma cycle_nodes_have_edges:
  assumes "is_simple_cycle E c"
  shows "set c \<subseteq> fst ` E"
proof
  fix x assume "x \<in> set c"
  with assms obtain y where "(x, y) \<in> E"
    using walk_out_edge [of E c "hd c" x] by (auto simp: is_simple_cycle_def)
  then show "x \<in> fst ` E" by force
qed

subsection \<open>No cycle is reported twice\<close>

lemma distinct_concat_map:
  assumes "distinct ws" and "\<And>w. w \<in> set ws \<Longrightarrow> distinct (f w)"
    and "\<And>w w'. w \<in> set ws \<Longrightarrow> w' \<in> set ws \<Longrightarrow> w \<noteq> w' \<Longrightarrow> set (f w) \<inter> set (f w') = {}"
  shows "distinct (concat (map f ws))"
  using assms
proof (induction ws)
  case Nil
  show ?case by simp
next
  case (Cons w ws)
  have "distinct (concat (map f ws))"
    by (rule Cons.IH) (use Cons.prems in auto)
  moreover have "distinct (f w)" using Cons.prems(2) by simp
  moreover have "set (f w) \<inter> set (f w') = {}" if "w' \<in> set ws" for w'
    using Cons.prems(1) Cons.prems(3) [of w w'] that by auto
  ultimately show ?case by auto
qed

lemma simple_paths_distinct:
  assumes "distinct avail" and "u \<notin> set avail" and "\<forall>x. distinct (successors G x)"
  shows "distinct (simple_paths G avail u)"
  using assms
proof (induction G avail u rule: simple_paths.induct)
  case (1 G avail u)
  let ?next = "filter (\<lambda>w. w \<in> set avail) (successors G u)"
  let ?f = "\<lambda>w. map ((#) u) (simple_paths G (remove1 w avail) w)"
  have inner: "distinct (simple_paths G (remove1 w avail) w)" if "w \<in> set ?next" for w
    using "1.IH" [OF that] "1.prems"(1,3) by simp
  have heads: "hd p' = w" if "w \<in> set ?next" "p' \<in> set (simple_paths G (remove1 w avail) w)"
    for w p'
  proof -
    have "distinct (remove1 w avail)" "w \<notin> set (remove1 w avail)"
      using "1.prems"(1) by simp_all
    from that(2) [unfolded simple_paths_iff [OF this]] show ?thesis by auto
  qed
  have "distinct ?next" using "1.prems"(3) by simp
  then have "distinct (concat (map ?f ?next))"
  proof (rule distinct_concat_map)
    fix w assume "w \<in> set ?next"
    then show "distinct (?f w)" by (simp add: inner distinct_map)
  next
    fix w w' assume w: "w \<in> set ?next" "w' \<in> set ?next" "w \<noteq> w'"
    show "set (?f w) \<inter> set (?f w') = {}"
    proof (rule ccontr)
      assume "set (?f w) \<inter> set (?f w') \<noteq> {}"
      then obtain p1 p2 where "p1 \<in> set (simple_paths G (remove1 w avail) w)"
        "p2 \<in> set (simple_paths G (remove1 w' avail) w')" "u # p1 = u # p2"
        by auto
      with heads [OF w(1)] heads [OF w(2)] w(3) show False by auto
    qed
  qed
  moreover have "[u] \<notin> set (concat (map ?f ?next))"
  proof
    assume "[u] \<in> set (concat (map ?f ?next))"
    then obtain w where w: "w \<in> set ?next" "[] \<in> set (simple_paths G (remove1 w avail) w)"
      by auto
    have "distinct (remove1 w avail)" "w \<notin> set (remove1 w avail)"
      using "1.prems"(1) by simp_all
    from w(2) [unfolded simple_paths_iff [OF this]] show False by simp
  qed
  ultimately show ?case
    by (subst simple_paths.simps) simp
qed

lemma simple_cycles_on_nodes:
  assumes "distinct vs" and "c \<in> set (simple_cycles_on G vs)"
  shows "c \<noteq> [] \<and> set c \<subseteq> set vs"
  using assms
proof (induction vs)
  case Nil
  then show ?case by simp
next
  case (Cons v vs)
  show ?case
  proof (cases "c \<in> set (simple_cycles_on G vs)")
    case True
    with Cons show ?thesis by auto
  next
    case False
    with Cons.prems(2) have "c \<in> set (simple_paths G vs v)" by simp
    moreover from Cons.prems(1) have "distinct vs" "v \<notin> set vs" by simp_all
    ultimately show ?thesis by (auto simp: simple_paths_iff)
  qed
qed

lemma simple_cycles_on_distinct:
  assumes "distinct vs" and "\<forall>x. distinct (successors G x)"
  shows "distinct (simple_cycles_on G vs)"
  using assms(1)
proof (induction vs)
  case Nil
  show ?case by simp
next
  case (Cons v vs)
  from Cons.prems have dvs: "distinct vs" and v: "v \<notin> set vs" by simp_all
  have "distinct (simple_paths G vs v)"
    using dvs v assms(2) by (rule simple_paths_distinct)
  moreover have "p \<notin> set (simple_cycles_on G vs)" if "p \<in> set (simple_paths G vs v)" for p
  proof
    assume "p \<in> set (simple_cycles_on G vs)"
    then have "set p \<subseteq> set vs" using simple_cycles_on_nodes [OF dvs] by blast
    moreover from that have "v \<in> set p" by (auto simp: simple_paths_iff [OF dvs v])
    ultimately show False using v by auto
  qed
  ultimately show ?case using Cons.IH [OF dvs] by auto
qed

lemma simple_cycles_on_same_start:
  assumes "distinct vs" and "c1 \<in> set (simple_cycles_on G vs)"
    and "c2 \<in> set (simple_cycles_on G vs)" and "set c1 = set c2"
  shows "hd c1 = hd c2"
  using assms
proof (induction vs)
  case Nil
  then show ?case by simp
next
  case (Cons v vs)
  from Cons.prems(1) have dvs: "distinct vs" and v: "v \<notin> set vs" by simp_all
  have first: "hd p = v \<and> v \<in> set p" if "p \<in> set (simple_paths G vs v)" for p
    using that by (auto simp: simple_paths_iff [OF dvs v])
  have rest: "v \<notin> set p" if "p \<in> set (simple_cycles_on G vs)" for p
    using simple_cycles_on_nodes [OF dvs that] v by auto
  consider "c1 \<in> set (simple_paths G vs v)" "c2 \<in> set (simple_paths G vs v)"
    | "c1 \<in> set (simple_paths G vs v)" "c2 \<in> set (simple_cycles_on G vs)"
    | "c1 \<in> set (simple_cycles_on G vs)" "c2 \<in> set (simple_paths G vs v)"
    | "c1 \<in> set (simple_cycles_on G vs)" "c2 \<in> set (simple_cycles_on G vs)"
    using Cons.prems(2,3) by auto
  then show ?case
  proof cases
    case 1
    then show ?thesis using first by simp
  next
    case 2
    then show ?thesis using first [of c1] rest [of c2] Cons.prems(4) by simp
  next
    case 3
    then show ?thesis using first [of c2] rest [of c1] Cons.prems(4) by simp
  next
    case 4
    then show ?thesis using Cons.IH dvs Cons.prems(4) by simp
  qed
qed

lemma rotate_same_head:
  assumes "distinct xs" and "xs \<noteq> []" and "hd (rotate k xs) = hd (rotate n xs)"
  shows "rotate k xs = rotate n xs"
proof -
  have "xs ! (k mod length xs) = xs ! (n mod length xs)"
    using assms(2,3) by (simp add: hd_rotate_conv_nth)
  then have "k mod length xs = n mod length xs"
    using assms(1,2) by (simp add: nth_eq_iff_index_eq)
  then show ?thesis
    by (metis rotate_conv_mod)
qed

lemma walk_trancl:
  assumes "walk E p" and "2 \<le> length p"
  shows "(hd p, last p) \<in> E\<^sup>+"
  using assms
proof (induction E p rule: walk.induct)
  case (1 E)
  then show ?case by simp
next
  case (2 E x)
  then show ?case by simp
next
  case (3 E x y rest)
  show ?case
  proof (cases rest)
    case Nil
    with "3.prems" show ?thesis by auto
  next
    case (Cons z rest')
    with "3.prems" "3.IH" have "(y, last (y # rest)) \<in> E\<^sup>+" by simp
    moreover from "3.prems" have "(x, y) \<in> E" by simp
    ultimately have "(x, last (y # rest)) \<in> E\<^sup>+" by (rule trancl_into_trancl2 [rotated])
    then show ?thesis by simp
  qed
qed

lemma simple_cycle_not_acyclic:
  assumes "is_simple_cycle E c"
  shows "\<not> acyclic E"
proof -
  from assms have "walk E (c @ [hd c])" and "c \<noteq> []"
    by (simp_all add: is_simple_cycle_def)
  then have "(hd (c @ [hd c]), last (c @ [hd c])) \<in> E\<^sup>+"
    by (intro walk_trancl) (simp_all add: Suc_le_eq)
  with \<open>c \<noteq> []\<close> have "(hd c, hd c) \<in> E\<^sup>+" by simp
  then show ?thesis by (auto simp: acyclic_def)
qed

lemma build_digraph_successors_distinct: "distinct (successors (build_digraph ds) x)"
proof (induction ds arbitrary: x rule: rev_induct)
  case Nil
  show ?case by (simp add: build_digraph_def successors_def)
next
  case (snoc d ds)
  then show ?case by (simp add: build_digraph_snoc successors_add_edge)
qed

lemma find_circular_dependencies_sound:
  assumes "c \<in> set (find_circular_dependencies g)"
  shows "is_simple_cycle (dep_edges (dependencies g)) c"
  using simple_cycles_on_sound [of "dict_keys (build_digraph (dependencies g))" c
      "build_digraph (dependencies g)"] assms build_digraph_facts [of "dependencies g"]
  by (simp add: find_circular_dependencies_def simple_cycles_def)

lemma find_circular_dependencies_complete:
  assumes "is_simple_cycle (dep_edges (dependencies g)) c"
  shows "\<exists>n. rotate n c \<in> set (find_circular_dependencies g)"
proof -
  let ?G = "build_digraph (dependencies g)"
  note facts = build_digraph_facts [of "dependencies g"]
  have "set c \<subseteq> set (dict_keys ?G)"
    using cycle_nodes_have_edges [OF assms] facts by auto
  moreover have "is_simple_cycle (graph_edges ?G) c"
    using assms facts by simp
  ultimately have "\<exists>n. rotate n c \<in> set (simple_cycles_on ?G (dict_keys ?G))"
    using facts by (intro simple_cycles_on_complete) simp_all
  then show ?thesis
    by (simp add: find_circular_dependencies_def simple_cycles_def)
qed

lemma find_circular_dependencies_distinct: "distinct (find_circular_dependencies g)"
  unfolding find_circular_dependencies_def simple_cycles_def
  using build_digraph_facts [of "dependencies g"]
  by (intro simple_cycles_on_distinct) (simp_all add: build_digraph_successors_distinct)

lemma find_circular_dependencies_same_start:
  assumes "c1 \<in> set (find_circular_dependencies g)"
    and "c2 \<in> set (find_circular_dependencies g)" and "set c1 = set c2"
  shows "hd c1 = hd c2"
  using assms build_digraph_facts [of "dependencies g"]
  unfolding find_circular_dependencies_def simple_cycles_def
  by (intro simple_cycles_on_same_start
        [of "dict_keys (build_digraph (dependencies g))" c1 "build_digraph (dependencies g)" c2])
     simp_all

lemma find_circular_dependencies_rotation_once:
  assumes "rotate k c \<in> set (find_circular_dependencies g)"
    and "rotate n c \<in> set (find_circular_dependencies g)"
  shows "rotate k c = rotate n c"
proof -
  have cyc: "is_simple_cycle (dep_edges (dependencies g)) (rotate k c)"
    using assms(1) by (rule find_circular_dependencies_sound)
  then have "distinct c" and "c \<noteq> []" by (simp_all add: is_simple_cycle_def)
  moreover have "hd (rotate k c) = hd (rotate n c)"
    using assms by (intro find_circular_dependencies_same_start [of _ g]) simp_all
  ultimately show ?thesis by (intro rotate_same_head)
qed

lemma triangle_cycles:
  assumes E: "E = {(a, b), (b, c), (c, a)}" and d: "a \<noteq> b" "b \<noteq> c" "a \<noteq> c"
    and cyc: "is_simple_cycle E r"
  shows "\<exists>k. r = rotate k [a, b, c]"
proof -
  from cyc have r: "r \<noteq> []" "distinct r" "walk E (r @ [hd r])"
    by (simp_all add: is_simple_cycle_def)
  have rot: "[b, c, a] = rotate 1 [a, b, c]" "[c, a, b] = rotate 2 [a, b, c]"
    "[a, b, c] = rotate 0 [a, b, c]"
    by (simp_all add: numeral_2_eq_2)
  obtain x r1 where r1: "r = x # r1" using r(1) by (cases r) auto
  show ?thesis
  proof (cases r1)
    case Nil
    with r r1 E d show ?thesis by auto
  next
    case (Cons y r2)
    note c1 = Cons
    show ?thesis
    proof (cases r2)
      case Nil
      with r r1 c1 E d show ?thesis by auto
    next
      case (Cons z r3)
      note c2 = Cons
      show ?thesis
      proof (cases r3)
        case Nil
        with r r1 c1 c2 E d have "r = [a, b, c] \<or> r = [b, c, a] \<or> r = [c, a, b]"
          by auto
        with rot show ?thesis by metis
      next
        case (Cons w r4)
        with r r1 c1 c2 E d have False by auto
        then show ?thesis ..
      qed
    qed
  qed
qed

lemma distinct_singleton_set:
  assumes "distinct xs" and "set xs = {x}"
  shows "xs = [x]"
proof (cases xs)
  case Nil
  with assms show ?thesis by simp
next
  case (Cons y ys)
  with assms have "y = x" by auto
  moreover have "ys = []"
  proof (cases ys)
    case Nil
    then show ?thesis .
  next
    case (Cons z zs)
    with assms \<open>xs = y # ys\<close> \<open>y = x\<close> have "z = x" "z \<noteq> x" by auto
    then show ?thesis by simp
  qed
  ultimately show ?thesis using Cons by simp
qed

text \<open>
  C2. \<open>find_circular_dependencies\<close> enumerates the simple directed cycles of the
  graph whose edges are the ordered pairs (source, target) of the dependencies, parallel
  edges counting once: every list it returns is a simple cycle, every simple cycle is
  returned in one of its rotations, and in one only. On an acyclic edge set the result
  is empty, and on the edge set \<open>a \<rightarrow> b\<close>, \<open>b \<rightarrow> c\<close>, \<open>c \<rightarrow> a\<close> of three different
  nodes it is exactly one cycle, a rotation of \<open>[a, b, c]\<close>.
\<close>

theorem find_circular_dependencies_enumerates:
  "(r \<in> set (find_circular_dependencies g) \<longrightarrow>
      is_simple_cycle (dep_edges (dependencies g)) r)
   \<and> (is_simple_cycle (dep_edges (dependencies g)) r \<longrightarrow>
        (\<exists>n. rotate n r \<in> set (find_circular_dependencies g)))
   \<and> distinct (find_circular_dependencies g)
   \<and> (rotate k r \<in> set (find_circular_dependencies g)
        \<and> rotate n r \<in> set (find_circular_dependencies g) \<longrightarrow> rotate k r = rotate n r)
   \<and> (acyclic (dep_edges (dependencies g)) \<longrightarrow> find_circular_dependencies g = [])
   \<and> (dep_edges (dependencies g) = {(a, b), (b, c), (c, a)} \<and> a \<noteq> b \<and> b \<noteq> c \<and> a \<noteq> c \<longrightarrow>
        (\<exists>m. find_circular_dependencies g = [rotate m [a, b, c]]))"
proof (intro conjI impI)
  assume "r \<in> set (find_circular_dependencies g)"
  then show "is_simple_cycle (dep_edges (dependencies g)) r"
    by (rule find_circular_dependencies_sound)
next
  assume "is_simple_cycle (dep_edges (dependencies g)) r"
  then show "\<exists>n. rotate n r \<in> set (find_circular_dependencies g)"
    by (rule find_circular_dependencies_complete)
next
  show "distinct (find_circular_dependencies g)"
    by (rule find_circular_dependencies_distinct)
next
  assume "rotate k r \<in> set (find_circular_dependencies g)
        \<and> rotate n r \<in> set (find_circular_dependencies g)"
  then show "rotate k r = rotate n r"
    by (intro find_circular_dependencies_rotation_once [of k r g n]) simp_all
next
  assume acyc: "acyclic (dep_edges (dependencies g))"
  show "find_circular_dependencies g = []"
  proof (cases "find_circular_dependencies g")
    case Nil
    then show ?thesis .
  next
    case (Cons x xs)
    then have "is_simple_cycle (dep_edges (dependencies g)) x"
      by (intro find_circular_dependencies_sound) simp
    with acyc show ?thesis using simple_cycle_not_acyclic by blast
  qed
next
  assume A: "dep_edges (dependencies g) = {(a, b), (b, c), (c, a)} \<and> a \<noteq> b \<and> b \<noteq> c \<and> a \<noteq> c"
  let ?E = "dep_edges (dependencies g)"
  have "is_simple_cycle ?E [a, b, c]"
    using A by (simp add: is_simple_cycle_def)
  then obtain m where m: "rotate m [a, b, c] \<in> set (find_circular_dependencies g)"
    using find_circular_dependencies_complete by blast
  have only: "x = rotate m [a, b, c]" if "x \<in> set (find_circular_dependencies g)" for x
  proof -
    from that have "is_simple_cycle ?E x" by (rule find_circular_dependencies_sound)
    then obtain k where k: "x = rotate k [a, b, c]"
      using triangle_cycles [of ?E a b c x] A by blast
    with that m show ?thesis
      using find_circular_dependencies_rotation_once [of k "[a, b, c]" g m] by simp
  qed
  have "set (find_circular_dependencies g) = {rotate m [a, b, c]}"
  proof (intro equalityI subsetI)
    fix x assume "x \<in> set (find_circular_dependencies g)"
    then have "x = rotate m [a, b, c]" by (rule only)
    then show "x \<in> {rotate m [a, b, c]}" by (simp only: singleton_iff)
  next
    fix x assume "x \<in> {rotate m [a, b, c]}"
    then have "x = rotate m [a, b, c]" by (simp only: singleton_iff)
    with m show "x \<in> set (find_circular_dependencies g)" by (simp only:)
  qed
  then have "find_circular_dependencies g = [rotate m [a, b, c]]"
    using find_circular_dependencies_distinct by (intro distinct_singleton_set)
  then show "\<exists>m. find_circular_dependencies g = [rotate m [a, b, c]]" ..
qed

lemma simple_paths_Nil: "simple_paths G [] u = [[u]]"
  by (subst simple_paths.simps) simp

lemma simple_paths_Cons:
  "simple_paths G (a # avail) u =
     [u] # concat (map (\<lambda>w. map ((#) u) (simple_paths G (remove1 w (a # avail)) w))
                       (filter (\<lambda>w. w \<in> set (a # avail)) (successors G u)))"
  by (subst simple_paths.simps) (rule refl)

theorem find_circular_dependencies_enumerates_witness:
  "dep_edges (dependencies example_triangle_graph)
     = {(''A.h'', ''B.h''), (''B.h'', ''C.h''), (''C.h'', ''A.h'')}
   \<and> ''A.h'' \<noteq> ''B.h'' \<and> ''B.h'' \<noteq> ''C.h'' \<and> ''A.h'' \<noteq> ''C.h''
   \<and> find_circular_dependencies example_triangle_graph = [[''B.h'', ''C.h'', ''A.h'']]
   \<and> [''B.h'', ''C.h'', ''A.h''] = rotate 1 [''A.h'', ''B.h'', ''C.h'']
   \<and> is_simple_cycle (dep_edges (dependencies example_triangle_graph)) [''B.h'', ''C.h'', ''A.h'']
   \<and> acyclic (dep_edges (dependencies example_star_graph))
   \<and> find_circular_dependencies example_star_graph = []"
proof -
  have edges: "dep_edges (dependencies example_triangle_graph)
     = {(''A.h'', ''B.h''), (''B.h'', ''C.h''), (''C.h'', ''A.h'')}"
    by code_simp
  have build: "build_digraph (dependencies example_triangle_graph)
     = [(''B.h'', [''C.h'']), (''C.h'', [''A.h'']), (''A.h'', [''B.h''])]"
    by code_simp
  have run: "find_circular_dependencies example_triangle_graph = [[''B.h'', ''C.h'', ''A.h'']]"
    by (simp add: find_circular_dependencies_def build simple_cycles_def dict_keys_def
        simple_paths_Nil simple_paths_Cons successors_def)
  have acyc: "acyclic (dep_edges (dependencies example_star_graph))"
    by code_simp
  note tri = find_circular_dependencies_enumerates
    [where g = example_triangle_graph and r = "[''B.h'', ''C.h'', ''A.h'']"
       and a = "''A.h''" and b = "''B.h''" and c = "''C.h''"]
  note star = find_circular_dependencies_enumerates [where g = example_star_graph]
  from tri run have cyc: "is_simple_cycle (dep_edges (dependencies example_triangle_graph))
      [''B.h'', ''C.h'', ''A.h'']"
    by simp
  from star acyc have none: "find_circular_dependencies example_star_graph = []"
    by blast
  from edges run cyc acyc none show ?thesis by simp
qed


end
